theory Spec2Isabelle
  imports Main "HOL-Library.Word" "HOL-Library.Multiset"
begin

section \<open>Go integers\<close>

text \<open>
  An \<open>int64\<close> value is modelled as the integer it denotes. Go's \<open>/\<close> and \<open>%\<close> truncate
  towards zero; \<open>+\<close> and \<open>-\<close> wrap around at 64 bits, and so does the one overflowing
  quotient (the most negative value divided by \<open>-1\<close>).
\<close>

definition wrap64 :: "int \<Rightarrow> int" where
  "wrap64 x = (x + 2 ^ 63) mod 2 ^ 64 - 2 ^ 63"

definition wrap32 :: "int \<Rightarrow> int" where
  "wrap32 x = (x + 2 ^ 31) mod 2 ^ 32 - 2 ^ 31"

definition in_int64 :: "int \<Rightarrow> bool" where
  "in_int64 x \<longleftrightarrow> - (2 ^ 63) \<le> x \<and> x < 2 ^ 63"

definition quo :: "int \<Rightarrow> int \<Rightarrow> int" where
  "quo a b = sgn a * sgn b * (\<bar>a\<bar> div \<bar>b\<bar>)"

definition rem :: "int \<Rightarrow> int \<Rightarrow> int" where
  "rem a b = sgn a * (\<bar>a\<bar> mod \<bar>b\<bar>)"

definition add64 :: "int \<Rightarrow> int \<Rightarrow> int" where
  "add64 a b = wrap64 (a + b)"

definition sub64 :: "int \<Rightarrow> int \<Rightarrow> int" where
  "sub64 a b = wrap64 (a - b)"

definition div64 :: "int \<Rightarrow> int \<Rightarrow> int" where
  "div64 a b = wrap64 (quo a b)"

text \<open>\<open>big.Int.Int64\<close>: the value itself when it fits 64 bits.\<close>

definition Int64 :: "int \<Rightarrow> int" where
  "Int64 x = wrap64 x"

section \<open>Strings\<close>

text \<open>Go compares strings byte by byte; a proper prefix is smaller.\<close>

fun str_less :: "string \<Rightarrow> string \<Rightarrow> bool" where
  "str_less [] [] = False"
| "str_less [] (y # ys) = True"
| "str_less (x # xs) [] = False"
| "str_less (x # xs) (y # ys) =
     ((of_char x :: nat) < of_char y \<or> (x = y \<and> str_less xs ys))"

section \<open>Data model\<close>

text \<open>\<open>common.Address\<close> is an array of 20 bytes.\<close>

type_synonym Address = "160 word"

type_synonym byte = "8 word"

datatype panic = DivideByZero | IndexOutOfRange | SliceBounds | InvalidInt31n

datatype error =
    ErrNoCandidates
  | ErrFailedToGetValidator
  | ErrNoValidatorKickout
  | ErrInvalidMintBlockTime
  | ErrLookupValidator
  | ErrTooFewCandidates
  | ErrDecodeValidators
  | Panic panic

text \<open>
  The package constants \<open>epochInterval\<close>, \<open>blockInterval\<close>, \<open>maxValidatorSize\<close>,
  \<open>safeSize\<close> and the package variable \<open>timeOfFirstBlock\<close> are declared outside the
  file verified here, so the functions below take them as a parameter.
\<close>

record config =
  epochInterval :: int
  blockInterval :: int
  maxValidatorSize :: int
  safeSize :: int
  timeOfFirstBlock :: int

text \<open>
  The indices held by \<open>types.DposContext\<close>, each as the sequence of entries its iterator
  yields (keys are unique, in key order):
  \<^item> the candidate index maps a candidate's address to itself;
  \<^item> the delegation index has the key candidate followed by delegator, and the delegator
    as value;
  \<^item> the mint-count index has the key epoch (8 bytes, big endian) followed by validator,
    and the count (8 bytes, big endian) as value;
  \<^item> the epoch index holds the validator list, when one is stored.
\<close>

record dpos_context =
  candidateTrie :: "Address list"
  delegateTrie :: "(Address \<times> Address) list"
  mintCntTrie :: "((64 word \<times> Address) \<times> 64 word) list"
  epochTrie :: "Address list option"

datatype log_entry =
    LogNoMoreKickout int int int
  | LogKickout int Address int
  | LogNewEpoch int int

text \<open>
  \<open>EpochContext\<close>, with the ledger state reduced to the balance of every account and the
  lines written by \<open>log.Info\<close> collected in \<open>logged\<close>.
\<close>

record epoch_context =
  TimeStamp :: int
  DposContext :: dpos_context
  statedb :: "Address \<Rightarrow> int"
  logged :: "log_entry list"

text \<open>
  Modelled from the spec: \<open>DposContext.GetValidators\<close> is not in the file verified here.
  ``ValidatorSetStore: get current ordered set''; ``any underlying storage error is
  wrapped and surfaced as-is''. It fails when no validator list can be decoded.
\<close>

definition GetValidators :: "dpos_context \<Rightarrow> error + Address list" where
  "GetValidators dc =
     (case epochTrie dc of None \<Rightarrow> Inl ErrDecodeValidators | Some vs \<Rightarrow> Inr vs)"

text \<open>
  Modelled from the spec: \<open>DposContext.SetEpoch\<close>, \<open>types.NewEpochTrie\<close> and
  \<open>DposContext.SetValidators\<close> are not in the file verified here. ``Replace the
  persisted validator set with the shuffled address sequence (full replace, not merge);
  also reset/recreate the per-epoch index''.
\<close>

definition SetValidators :: "Address list \<Rightarrow> dpos_context \<Rightarrow> dpos_context" where
  "SetValidators vs dc = dc\<lparr>epochTrie := Some vs\<rparr>"

text \<open>
  Modelled from the spec: \<open>DposContext.KickoutCandidate\<close> is not in the file verified here.
  ``Each eviction removes the candidate from the candidate index (external call)''.
  Keys are unique, so at most one entry goes.
\<close>

definition KickoutCandidate :: "Address \<Rightarrow> dpos_context \<Rightarrow> error + dpos_context" where
  "KickoutCandidate a dc = Inr (dc\<lparr>candidateTrie := remove1 a (candidateTrie dc)\<rparr>)"

text \<open>\<open>delegateTrie.PrefixIterator(candidate)\<close>: the delegators stored under a candidate.\<close>

definition delegatorsOf :: "dpos_context \<Rightarrow> Address \<Rightarrow> Address list" where
  "delegatorsOf dc candidate =
     map snd (filter (\<lambda>(c, d). c = candidate) (delegateTrie dc))"

section \<open>lookupValidator\<close>

text \<open>
  The remainder \<open>now % epochInterval\<close> is smaller in magnitude than \<open>epochInterval\<close>, so
  it is never the most negative \<open>int64\<close> and the quotient below cannot overflow.
  Indexing a slice outside its bounds panics.
\<close>

definition lookupValidator :: "config \<Rightarrow> epoch_context \<Rightarrow> int \<Rightarrow> error + Address" where
  "lookupValidator cfg ec now =
     (if epochInterval cfg = 0 \<or> blockInterval cfg = 0 then Inl (Panic DivideByZero)
      else
        let offset = rem now (epochInterval cfg) in
        if rem offset (blockInterval cfg) \<noteq> 0 then Inl ErrInvalidMintBlockTime
        else
          let offset = quo offset (blockInterval cfg) in
          case GetValidators (DposContext ec) of
            Inl err \<Rightarrow> Inl err
          | Inr validators \<Rightarrow>
              let validatorSize = int (length validators) in
              if validatorSize = 0 then Inl ErrLookupValidator
              else
                let offset = rem offset validatorSize in
                if 0 \<le> offset \<and> offset < validatorSize
                then Inr (validators ! nat offset)
                else Inl (Panic IndexOutOfRange))"

section \<open>countVotes\<close>

text \<open>
  The inner loop: every delegator's balance is added to the candidate's entry of \<open>votes\<close>,
  which starts from zero when the candidate has no entry yet.
\<close>

fun tallyDelegators ::
  "(Address \<Rightarrow> int) \<Rightarrow> Address \<Rightarrow> Address list \<Rightarrow> (Address \<rightharpoonup> int) \<Rightarrow> (Address \<rightharpoonup> int)"
where
  "tallyDelegators balance candidateAddr [] votes = votes"
| "tallyDelegators balance candidateAddr (delegator # rest) votes =
     (let score = (case votes candidateAddr of None \<Rightarrow> 0 | Some sc \<Rightarrow> sc);
          weight = balance delegator
      in tallyDelegators balance candidateAddr rest (votes(candidateAddr \<mapsto> score + weight)))"

text \<open>The outer loop over the candidate index.\<close>

fun tallyCandidates ::
  "epoch_context \<Rightarrow> Address list \<Rightarrow> (Address \<rightharpoonup> int) \<Rightarrow> (Address \<rightharpoonup> int)"
where
  "tallyCandidates ec [] votes = votes"
| "tallyCandidates ec (candidate # rest) votes =
     (case delegatorsOf (DposContext ec) candidate of
        [] \<Rightarrow> tallyCandidates ec rest (votes(candidate \<mapsto> 0))
      | delegator # ds \<Rightarrow>
          tallyCandidates ec rest
            (tallyDelegators (statedb ec) candidate (delegator # ds) votes))"

definition countVotes :: "epoch_context \<Rightarrow> error + (Address \<rightharpoonup> int)" where
  "countVotes ec =
     (case candidateTrie (DposContext ec) of
        [] \<Rightarrow> Inl ErrNoCandidates
      | candidate # rest \<Rightarrow> Inr (tallyCandidates ec (candidate # rest) Map.empty))"

section \<open>sortableAddresses\<close>

record sortableAddress =
  address :: Address
  weight :: int

text \<open>
  \<open>Less\<close> compares two entries of the slice. \<open>Address.String\<close> is declared outside the file
  verified here and is a parameter.
\<close>

definition Less :: "(Address \<Rightarrow> string) \<Rightarrow> sortableAddress \<Rightarrow> sortableAddress \<Rightarrow> bool" where
  "Less String p_i p_j =
     (if weight p_i < weight p_j then False
      else if weight p_i > weight p_j then True
      else str_less (String (address p_i)) (String (address p_j)))"

text \<open>\<open>sort.Reverse\<close> swaps the arguments of \<open>Less\<close>.\<close>

definition Reverse :: "('a \<Rightarrow> 'a \<Rightarrow> bool) \<Rightarrow> 'a \<Rightarrow> 'a \<Rightarrow> bool" where
  "Reverse lt a b = lt b a"

text \<open>
  \<open>sort.Sort\<close> of the standard library returns the slice rearranged so that no element is
  \<open>Less\<close> than one before it. It is modelled by insertion; \<open>sort_Sort_unique\<close> below shows
  that, for an order that is total, no other arrangement meets this contract.
\<close>

fun insert_by :: "('a \<Rightarrow> 'a \<Rightarrow> bool) \<Rightarrow> 'a \<Rightarrow> 'a list \<Rightarrow> 'a list" where
  "insert_by lt x [] = [x]"
| "insert_by lt x (y # ys) =
     (if lt x y then x # y # ys else y # insert_by lt x ys)"

definition sort_Sort :: "('a \<Rightarrow> 'a \<Rightarrow> bool) \<Rightarrow> 'a list \<Rightarrow> 'a list" where
  "sort_Sort lt xs = foldr (insert_by lt) xs []"

section \<open>kickoutValidator\<close>

text \<open>The key of a mint-count record: \<open>uint64(epoch)\<close> followed by the validator.\<close>

definition mintCntKey :: "int \<Rightarrow> Address \<Rightarrow> 64 word \<times> Address" where
  "mintCntKey epoch validator = (word_of_int epoch, validator)"

text \<open>The count read for a validator: zero without a record, else the record as \<open>int64\<close>.\<close>

definition mintCnt :: "dpos_context \<Rightarrow> int \<Rightarrow> Address \<Rightarrow> int" where
  "mintCnt dc epoch validator =
     (case map_of (mintCntTrie dc) (mintCntKey epoch validator) of
        None \<Rightarrow> 0
      | Some cntBytes \<Rightarrow> sint cntBytes)"

definition epochDuration :: "config \<Rightarrow> epoch_context \<Rightarrow> int" where
  "epochDuration cfg ec =
     (if sub64 (TimeStamp ec) (timeOfFirstBlock cfg) < epochInterval cfg
      then sub64 (TimeStamp ec) (timeOfFirstBlock cfg)
      else epochInterval cfg)"

definition kickoutThreshold :: "config \<Rightarrow> epoch_context \<Rightarrow> int" where
  "kickoutThreshold cfg ec =
     div64 (div64 (div64 (epochDuration cfg ec) (blockInterval cfg)) (maxValidatorSize cfg)) 2"

text \<open>The first loop: the validators whose count is below the threshold, in list order.\<close>

fun needKickout ::
  "config \<Rightarrow> epoch_context \<Rightarrow> int \<Rightarrow> Address list \<Rightarrow> sortableAddress list \<Rightarrow> sortableAddress list"
where
  "needKickout cfg ec epoch [] needKickoutValidators = needKickoutValidators"
| "needKickout cfg ec epoch (validator # rest) needKickoutValidators =
     (let cnt = mintCnt (DposContext ec) epoch validator in
      if cnt < kickoutThreshold cfg ec
      then needKickout cfg ec epoch rest
             (needKickoutValidators @ [\<lparr>address = validator, weight = cnt\<rparr>])
      else needKickout cfg ec epoch rest needKickoutValidators)"

text \<open>The second loop: candidates are counted up to the limit.\<close>

fun countCandidates :: "int \<Rightarrow> int \<Rightarrow> Address list \<Rightarrow> int" where
  "countCandidates limit candidateCount [] = candidateCount"
| "countCandidates limit candidateCount (c # rest) =
     (if candidateCount + 1 \<ge> limit then candidateCount + 1
      else countCandidates limit (candidateCount + 1) rest)"

text \<open>The third loop: the evictions.\<close>

fun kickoutLoop ::
  "config \<Rightarrow> int \<Rightarrow> int \<Rightarrow> sortableAddress list \<Rightarrow> epoch_context \<Rightarrow> epoch_context \<times> error option"
where
  "kickoutLoop cfg epoch candidateCount [] ec = (ec, None)"
| "kickoutLoop cfg epoch candidateCount (validator # rest) ec =
     (if candidateCount \<le> safeSize cfg
      then (ec\<lparr>logged := logged ec @
                  [LogNoMoreKickout epoch candidateCount (int (length (validator # rest)))]\<rparr>,
            None)
      else
        case KickoutCandidate (address validator) (DposContext ec) of
          Inl err \<Rightarrow> (ec, Some err)
        | Inr dc \<Rightarrow>
            kickoutLoop cfg epoch (candidateCount - 1) rest
              (ec\<lparr>DposContext := dc,
                  logged := logged ec @
                    [LogKickout epoch (address validator) (weight validator)]\<rparr>))"

text \<open>
  The context is changed in place, so the result is the context reached together with
  the error returned, if any. A zero \<open>blockInterval\<close> or \<open>maxValidatorSize\<close> makes the
  threshold's division panic at the first validator.
\<close>

definition kickoutValidator ::
  "(Address \<Rightarrow> string) \<Rightarrow> config \<Rightarrow> int \<Rightarrow> epoch_context \<Rightarrow> epoch_context \<times> error option"
where
  "kickoutValidator String cfg epoch ec =
     (case GetValidators (DposContext ec) of
        Inl err \<Rightarrow> (ec, Some ErrFailedToGetValidator)
      | Inr validators \<Rightarrow>
          if length validators = 0 then (ec, Some ErrNoValidatorKickout)
          else if blockInterval cfg = 0 \<or> maxValidatorSize cfg = 0
          then (ec, Some (Panic DivideByZero))
          else
            let needKickoutValidators = needKickout cfg ec epoch validators [];
                needKickoutValidatorCnt = int (length needKickoutValidators)
            in
              if needKickoutValidatorCnt \<le> 0 then (ec, None)
              else
                let needKickoutValidators =
                      sort_Sort (Reverse (Less String)) needKickoutValidators;
                    candidateCount =
                      countCandidates (needKickoutValidatorCnt + safeSize cfg) 0
                        (candidateTrie (DposContext ec))
                in kickoutLoop cfg epoch candidateCount needKickoutValidators ec)"

text \<open>The addresses evicted, in order, as the log lines of the evictions record them.\<close>

fun kickedOut :: "log_entry list \<Rightarrow> Address list" where
  "kickedOut [] = []"
| "kickedOut (LogKickout epoch a cnt # rest) = a # kickedOut rest"
| "kickedOut (e # rest) = kickedOut rest"

section \<open>tryElect\<close>

text \<open>
  What \<open>tryElect\<close> uses of other packages is a parameter: the string form of an address,
  \<open>crypto.Keccak512\<close>, and the generator of \<open>math/rand\<close> as a state \<open>'r\<close> with the
  source made from a seed and \<open>Int31n\<close> returning the number drawn and the next state.
\<close>

record 'r externals =
  AddressString :: "Address \<Rightarrow> string"
  Keccak512 :: "byte list \<Rightarrow> byte list"
  NewSource :: "int \<Rightarrow> 'r"
  Int31n :: "'r \<Rightarrow> int \<Rightarrow> int \<times> 'r"

text \<open>Of \<open>types.Header\<close>: the time, and the hash that \<open>Hash()\<close> returns.\<close>

record header =
  Time :: int
  Hash :: "byte list"

text \<open>
  \<open>binary.LittleEndian.Uint32\<close> reads the first four bytes, the first one lowest, and
  panics on a shorter slice (\<open>None\<close>).
\<close>

definition LittleEndian_Uint32 :: "byte list \<Rightarrow> int option" where
  "LittleEndian_Uint32 b =
     (if length b < 4 then None
      else Some (uint (b ! 0) + uint (b ! 1) * 2 ^ 8 + uint (b ! 2) * 2 ^ 16
                 + uint (b ! 3) * 2 ^ 24))"

definition shuffleSeed :: "'r externals \<Rightarrow> header \<Rightarrow> int \<Rightarrow> int option" where
  "shuffleSeed ext parent i =
     (case LittleEndian_Uint32 (Keccak512 ext (Hash parent)) of
        None \<Rightarrow> None
      | Some low \<Rightarrow> Some (add64 low i))"

text \<open>
  \<open>for candidate, cnt := range votes\<close>: Go leaves the order in which a map is ranged over
  open, so the order is a parameter, a list of the map's keys. Keys outside the map
  yield nothing.
\<close>

fun rangeVotes :: "(Address \<rightharpoonup> int) \<Rightarrow> Address list \<Rightarrow> sortableAddress list" where
  "rangeVotes votes [] = []"
| "rangeVotes votes (candidate # rest) =
     (case votes candidate of
        None \<Rightarrow> rangeVotes votes rest
      | Some cnt \<Rightarrow> \<lparr>address = candidate, weight = cnt\<rparr> # rangeVotes votes rest)"

text \<open>
  The shuffle loop, \<open>i\<close> running from the last index down to 1. \<open>Int31n\<close> panics unless
  its argument, converted to \<open>int32\<close>, is positive.
\<close>

fun shuffleLoop ::
  "('r \<Rightarrow> int \<Rightarrow> int \<times> 'r) \<Rightarrow> 'r \<Rightarrow> nat \<Rightarrow> 'a list \<Rightarrow> error + 'a list"
where
  "shuffleLoop int31n r 0 candidates = Inr candidates"
| "shuffleLoop int31n r (Suc k) candidates =
     (let i = Suc k; n = wrap32 (int i + 1) in
      if n \<le> 0 then Inl (Panic InvalidInt31n)
      else
        case int31n r n of
          (j, r') \<Rightarrow>
            if 0 \<le> j \<and> nat j < length candidates \<and> i < length candidates
            then shuffleLoop int31n r' k
                   (candidates[i := candidates ! nat j, nat j := candidates ! i])
            else Inl (Panic IndexOutOfRange))"

definition shuffle :: "'r externals \<Rightarrow> int \<Rightarrow> 'a list \<Rightarrow> error + 'a list" where
  "shuffle ext seed candidates =
     shuffleLoop (Int31n ext) (NewSource ext seed) (length candidates - 1) candidates"

text \<open>
  The second half of the loop body: tally, sort, truncate, shuffle, commit. Slicing to a
  negative length panics.
\<close>

definition electValidators ::
  "'r externals \<Rightarrow> config \<Rightarrow> ((Address \<rightharpoonup> int) \<Rightarrow> Address list) \<Rightarrow> header \<Rightarrow> int
     \<Rightarrow> epoch_context \<Rightarrow> epoch_context \<times> error option"
where
  "electValidators ext cfg order parent i ec =
     (case countVotes ec of
        Inl err \<Rightarrow> (ec, Some err)
      | Inr votes \<Rightarrow>
          let candidates = rangeVotes votes (order votes) in
          if int (length candidates) < safeSize cfg then (ec, Some ErrTooFewCandidates)
          else
            let candidates = sort_Sort (Less (AddressString ext)) candidates in
            if int (length candidates) > maxValidatorSize cfg \<and> maxValidatorSize cfg < 0
            then (ec, Some (Panic SliceBounds))
            else
              let candidates =
                    (if int (length candidates) > maxValidatorSize cfg
                     then take (nat (maxValidatorSize cfg)) candidates
                     else candidates)
              in
                (case shuffleSeed ext parent i of
                   None \<Rightarrow> (ec, Some (Panic IndexOutOfRange))
                 | Some seed \<Rightarrow>
                     (case shuffle ext seed candidates of
                        Inl err \<Rightarrow> (ec, Some err)
                      | Inr candidates \<Rightarrow>
                          let sortedValidators = map address candidates in
                          (ec\<lparr>DposContext :=
                                SetValidators sortedValidators (DposContext ec),
                              logged := logged ec @ [LogNewEpoch i (i + 1)]\<rparr>,
                           None))))"

text \<open>\<open>iter.Next()\<close> on the iterator over the mint-count records of the previous epoch.\<close>

definition iterNext :: "'a list \<Rightarrow> bool \<times> 'a list" where
  "iterNext iter = (case iter of [] \<Rightarrow> (False, []) | x # rest \<Rightarrow> (True, rest))"

text \<open>
  The first half of the loop body: the eviction, which runs when the previous epoch is
  not the genesis epoch and the iterator, asked only in that case, has a next record.
\<close>

definition kickoutStep ::
  "(Address \<Rightarrow> string) \<Rightarrow> config \<Rightarrow> int \<Rightarrow> bool
     \<Rightarrow> ((64 word \<times> Address) \<times> 64 word) list \<times> epoch_context
     \<Rightarrow> (((64 word \<times> Address) \<times> 64 word) list \<times> epoch_context) \<times> error option"
where
  "kickoutStep String cfg prevEpoch prevEpochIsGenesis st =
     (case st of
        (iter, ec) \<Rightarrow>
          if prevEpochIsGenesis then ((iter, ec), None)
          else
            case iterNext iter of
              (exist, iter') \<Rightarrow>
                if exist
                then (case kickoutValidator String cfg prevEpoch ec of
                        (ec', err) \<Rightarrow> ((iter', ec'), err))
                else ((iter', ec), None))"

definition tryElectStep ::
  "'r externals \<Rightarrow> config \<Rightarrow> ((Address \<rightharpoonup> int) \<Rightarrow> Address list) \<Rightarrow> header \<Rightarrow> int \<Rightarrow> bool
     \<Rightarrow> int \<Rightarrow> ((64 word \<times> Address) \<times> 64 word) list \<times> epoch_context
     \<Rightarrow> (((64 word \<times> Address) \<times> 64 word) list \<times> epoch_context) \<times> error option"
where
  "tryElectStep ext cfg order parent prevEpoch prevEpochIsGenesis i st =
     (case kickoutStep (AddressString ext) cfg prevEpoch prevEpochIsGenesis st of
        (st', Some err) \<Rightarrow> (st', Some err)
      | ((iter', ec'), None) \<Rightarrow>
          (case electValidators ext cfg order parent i ec' of
             (ec'', err) \<Rightarrow> ((iter', ec''), err)))"

text \<open>The loop \<open>for i := prevEpoch; i < currentEpoch; i++\<close> around a body.\<close>

function tryElectLoop ::
  "(int \<Rightarrow> 's \<Rightarrow> 's \<times> error option) \<Rightarrow> int \<Rightarrow> int \<Rightarrow> 's \<Rightarrow> 's \<times> error option"
where
  "tryElectLoop body currentEpoch i st =
     (if i < currentEpoch
      then (case body i st of
              (st', Some err) \<Rightarrow> (st', Some err)
            | (st', None) \<Rightarrow> tryElectLoop body currentEpoch (i + 1) st')
      else (st, None))"
  by pat_completeness auto
termination
  by (relation "measure (\<lambda>(body, currentEpoch, i, st). nat (currentEpoch - i))") auto

definition tryElect ::
  "'r externals \<Rightarrow> config \<Rightarrow> ((Address \<rightharpoonup> int) \<Rightarrow> Address list) \<Rightarrow> header \<Rightarrow> header
     \<Rightarrow> epoch_context \<Rightarrow> epoch_context \<times> error option"
where
  "tryElect ext cfg order genesis parent ec =
     (if epochInterval cfg = 0 then (ec, Some (Panic DivideByZero))
      else
        let genesisEpoch = div64 (Int64 (Time genesis)) (epochInterval cfg);
            prevEpoch = div64 (Int64 (Time parent)) (epochInterval cfg);
            currentEpoch = div64 (TimeStamp ec) (epochInterval cfg);
            prevEpochIsGenesis = (prevEpoch = genesisEpoch);
            prevEpoch = (if prevEpochIsGenesis \<and> prevEpoch < currentEpoch
                         then sub64 currentEpoch 1 else prevEpoch);
            iter = filter (\<lambda>((e, v), cnt). e = word_of_int prevEpoch)
                     (mintCntTrie (DposContext ec))
        in
          case tryElectLoop
                 (tryElectStep ext cfg order parent prevEpoch prevEpochIsGenesis)
                 currentEpoch prevEpoch (iter, ec)
          of ((iter', ec'), err) \<Rightarrow> (ec', err))"

section \<open>The seed in the words of the specification\<close>

text \<open>
  The specification calls the number read from the digest its low 32 bits. The digest
  is then read as a number with its first byte lowest.
\<close>

fun le_nat :: "byte list \<Rightarrow> nat" where
  "le_nat [] = 0"
| "le_nat (b # bs) = unat b + 256 * le_nat bs"

definition low32 :: "byte list \<Rightarrow> int" where
  "low32 digest = int (le_nat digest mod 2 ^ 32)"

section \<open>Example states\<close>

text \<open>
  A configuration, a ledger and a context on which the theorems below are run: five
  candidates, three of them the validators of epoch 1, and two accounts with a balance.
\<close>

definition cfgEx :: config where
  "cfgEx = \<lparr>epochInterval = 86400, blockInterval = 10, maxValidatorSize = 3,
             safeSize = 1, timeOfFirstBlock = 0\<rparr>"

definition dcEx :: dpos_context where
  "dcEx = \<lparr>candidateTrie = [1, 2, 3, 4, 5],
            delegateTrie = [(1, 10), (1, 11), (3, 10)],
            mintCntTrie = [((1, 1), 5), ((1, 2), 2), ((1, 3), 5)],
            epochTrie = Some [1, 2, 3]\<rparr>"

definition ecEx :: epoch_context where
  "ecEx = \<lparr>TimeStamp = 172800, DposContext = dcEx,
            statedb = (\<lambda>a. if a = 10 then 7 else if a = 11 then 5 else 0),
            logged = []\<rparr>"

text \<open>
  An instance of \<open>Address.String\<close> for the examples: \<open>0x\<close> and the forty hexadecimal
  digits of the address, in lower case. The string form of the code base writes some of
  the letters among the digits in upper case; the two agree on the addresses used below,
  whose digits are all decimal.
\<close>

definition hexChar :: "nat \<Rightarrow> char" where
  "hexChar d = ''0123456789abcdef'' ! d"

fun hexDigits :: "nat \<Rightarrow> nat \<Rightarrow> string" where
  "hexDigits 0 v = []"
| "hexDigits (Suc n) v = hexDigits n (v div 16) @ [hexChar (v mod 16)]"

definition hexString :: "Address \<Rightarrow> string" where
  "hexString a = ''0x'' @ hexDigits 40 (unat a)"

text \<open>The same context with four candidates and a safe size of three.\<close>

definition cfgFloor :: config where
  "cfgFloor = cfgEx\<lparr>safeSize := 3\<rparr>"

definition ecFloor :: epoch_context where
  "ecFloor = ecEx\<lparr>DposContext := dcEx\<lparr>candidateTrie := [1, 2, 3, 4]\<rparr>\<rparr>"

text \<open>
  Stand-ins for the hash and the generator, two headers, and two orders in which the
  tally may be ranged over.
\<close>

definition extEx :: "int externals" where
  "extEx = \<lparr>AddressString = hexString,
             Keccak512 = (\<lambda>bs. map (\<lambda>b. b + 1) bs @ replicate 60 0),
             NewSource = (\<lambda>seed. \<bar>seed\<bar>),
             Int31n = (\<lambda>r n. ((r * 7 + 3) mod n, r + 1))\<rparr>"

definition genesisEx :: header where
  "genesisEx = \<lparr>Time = 0, Hash = [0, 0, 0, 0]\<rparr>"

definition parentEx :: header where
  "parentEx = \<lparr>Time = 86400, Hash = [1, 2, 3, 4]\<rparr>"

definition orderUp :: "(Address \<rightharpoonup> int) \<Rightarrow> Address list" where
  "orderUp votes = filter (\<lambda>a. votes a \<noteq> None) [1, 2, 3, 4, 5]"

definition orderDown :: "(Address \<rightharpoonup> int) \<Rightarrow> Address list" where
  "orderDown votes = filter (\<lambda>a. votes a \<noteq> None) [5, 4, 3, 2, 1]"

text \<open>A context with a single candidate, under a safe size of three.\<close>

definition ecFew :: epoch_context where
  "ecFew = ecEx\<lparr>DposContext := dcEx\<lparr>candidateTrie := [1]\<rparr>\<rparr>"

text \<open>
  A context with six validators for epoch 1: validator 1 minted 5 blocks, validator 2
  minted 1441, validator 3 has a record for epoch 2 only, validator 4 has none, the
  record of validator 5 is \<open>-1\<close> as \<open>int64\<close>, and validator 6 minted 1000. The
  same context half an epoch after the first block, and a configuration whose first
  block comes after it.
\<close>

definition ecMint :: epoch_context where
  "ecMint = ecEx\<lparr>DposContext := dcEx\<lparr>
              mintCntTrie := [((1, 1), 5), ((1, 2), 1441), ((2, 3), 7), ((1, 5), - 1),
                              ((1, 6), 1000)],
              epochTrie := Some [1, 2, 3, 4, 5, 6]\<rparr>\<rparr>"

definition ecShort :: epoch_context where
  "ecShort = ecMint\<lparr>TimeStamp := 43200\<rparr>"

definition cfgLate :: config where
  "cfgLate = cfgEx\<lparr>timeOfFirstBlock := 43300\<rparr>"

section \<open>Truncated division\<close>

lemma rem_nonneg: "0 \<le> a \<Longrightarrow> 0 < b \<Longrightarrow> rem a b = a mod b"
  by (simp add: rem_def sgn_if)

lemma quo_nonneg: "0 \<le> a \<Longrightarrow> 0 < b \<Longrightarrow> quo a b = a div b"
  by (simp add: quo_def sgn_if)

lemma rem_less: "0 < b \<Longrightarrow> rem a b < b"
  by (simp add: rem_def sgn_if) (smt (verit) abs_of_pos pos_mod_bound pos_mod_sign)

lemma rem_nonneg_nonneg: "0 \<le> a \<Longrightarrow> 0 \<le> rem a b"
  by (cases "b = 0") (simp_all add: rem_def sgn_if)

lemma quo_nonneg_nonneg: "0 \<le> a \<Longrightarrow> 0 < b \<Longrightarrow> 0 \<le> quo a b"
  by (simp add: quo_nonneg pos_imp_zdiv_nonneg_iff)

section \<open>The turn locator\<close>

lemma lookupValidator_aligned:
  assumes "epochInterval cfg \<noteq> 0" "blockInterval cfg \<noteq> 0"
    and "rem (rem now (epochInterval cfg)) (blockInterval cfg) = 0"
    and "GetValidators (DposContext ec) = Inr validators"
  shows "lookupValidator cfg ec now =
     (if validators = [] then Inl ErrLookupValidator
      else let idx = rem (quo (rem now (epochInterval cfg)) (blockInterval cfg))
                       (int (length validators))
           in if 0 \<le> idx then Inr (validators ! nat idx)
              else Inl (Panic IndexOutOfRange))"
  using assms by (auto simp: lookupValidator_def Let_def rem_less)

lemma lookupValidator_invalid_iff:
  assumes "epochInterval cfg \<noteq> 0" "blockInterval cfg \<noteq> 0"
  shows "lookupValidator cfg ec now = Inl ErrInvalidMintBlockTime \<longleftrightarrow>
     rem (rem now (epochInterval cfg)) (blockInterval cfg) \<noteq> 0"
  using assms
  by (auto simp: lookupValidator_def Let_def GetValidators_def split: option.splits)

text \<open>
  C5, as the code has it. With \<open>epochInterval = 86400\<close> and \<open>blockInterval = 10\<close>,
  \<open>lookupValidator\<close> fails with the invalid-mint-time error exactly when
  \<open>(timestamp % 86400) % 10\<close> is not zero, for every timestamp. At a slot-aligned
  timestamp it fails with the lookup error when the validator set is empty, and for a
  non-empty set and a timestamp that is not negative it returns
  \<open>validators[((timestamp % 86400) / 10) % len(validators)]\<close>, the index being in range.
\<close>

theorem lookupValidator_slot:
  assumes e: "epochInterval cfg = 86400" and b: "blockInterval cfg = 10"
  shows "(lookupValidator cfg ec timestamp = Inl ErrInvalidMintBlockTime \<longleftrightarrow>
            rem (rem timestamp 86400) 10 \<noteq> 0)
    \<and> (\<forall>validators.
          rem (rem timestamp 86400) 10 = 0 \<and>
          GetValidators (DposContext ec) = Inr validators \<longrightarrow>
            (validators = [] \<longrightarrow>
               lookupValidator cfg ec timestamp = Inl ErrLookupValidator) \<and>
            (validators \<noteq> [] \<and> 0 \<le> timestamp \<longrightarrow>
               0 \<le> rem (quo (rem timestamp 86400) 10) (int (length validators)) \<and>
               nat (rem (quo (rem timestamp 86400) 10) (int (length validators)))
                 < length validators \<and>
               lookupValidator cfg ec timestamp =
                 Inr (validators !
                        nat (rem (quo (rem timestamp 86400) 10)
                               (int (length validators))))))"
proof (intro conjI allI impI)
  show "lookupValidator cfg ec timestamp = Inl ErrInvalidMintBlockTime \<longleftrightarrow>
      rem (rem timestamp 86400) 10 \<noteq> 0"
    using lookupValidator_invalid_iff [of cfg ec timestamp] by (simp add: e b)
next
  fix validators
  assume h: "rem (rem timestamp 86400) 10 = 0 \<and>
      GetValidators (DposContext ec) = Inr validators"
  then have eq: "lookupValidator cfg ec timestamp =
     (if validators = [] then Inl ErrLookupValidator
      else let idx = rem (quo (rem timestamp 86400) 10) (int (length validators))
           in if 0 \<le> idx then Inr (validators ! nat idx)
              else Inl (Panic IndexOutOfRange))"
    using lookupValidator_aligned [of cfg timestamp ec validators] by (simp add: e b)
  {
    assume "validators = []"
    then show "lookupValidator cfg ec timestamp = Inl ErrLookupValidator"
      by (simp add: eq)
  }
  {
    assume nn: "validators \<noteq> [] \<and> 0 \<le> timestamp"
    then have "0 \<le> quo (rem timestamp 86400) 10"
      by (simp add: quo_nonneg_nonneg rem_nonneg_nonneg)
    then show i0: "0 \<le> rem (quo (rem timestamp 86400) 10) (int (length validators))"
      by (rule rem_nonneg_nonneg)
    from nn have "rem (quo (rem timestamp 86400) 10) (int (length validators))
        < int (length validators)"
      by (simp add: rem_less)
    with i0 show "nat (rem (quo (rem timestamp 86400) 10) (int (length validators)))
        < length validators"
      by simp
    from nn i0 show "lookupValidator cfg ec timestamp =
        Inr (validators !
               nat (rem (quo (rem timestamp 86400) 10) (int (length validators))))"
      by (simp add: eq Let_def)
  }
qed

theorem lookupValidator_slot_witness:
  "epochInterval cfgEx = 86400 \<and> blockInterval cfgEx = 10 \<and>
   rem (rem 40 86400) 10 = 0 \<and> GetValidators (DposContext ecEx) = Inr [1, 2, 3] \<and>
   lookupValidator cfgEx ecEx 40 = Inr 2"
  using lookupValidator_slot [of cfgEx ecEx 40]
  by (simp add: cfgEx_def ecEx_def dcEx_def GetValidators_def rem_def quo_def)

text \<open>
  C5 as stated also covers negative timestamps. At \<open>-10\<close>, which is slot-aligned, with
  three validators, the index is \<open>-1\<close> and the lookup panics.
\<close>

theorem lookupValidator_slot_counterexample:
  "rem (rem (- 10) 86400) 10 = 0 \<and> GetValidators (DposContext ecEx) = Inr [1, 2, 3] \<and>
   lookupValidator cfgEx ecEx (- 10) = Inl (Panic IndexOutOfRange)"
  by (simp add: cfgEx_def ecEx_def dcEx_def GetValidators_def rem_def quo_def
      lookupValidator_def)

text \<open>
  C10. For a timestamp that is not negative and positive \<open>epochInterval\<close> and
  \<open>blockInterval\<close>, once the slot check has passed and the validator set is not empty,
  the index computed is \<open>((now mod epochInterval) div blockInterval) mod validatorSize\<close>,
  it lies in \<open>[0, validatorSize)\<close> and the validator at it is returned. For a negative
  timestamp this fails: there is one at which the index is negative and the indexing
  panics.
\<close>

theorem lookupValidator_index_in_bounds:
  "(\<forall>cfg ec now validators.
      0 \<le> now \<and> 0 < epochInterval cfg \<and> 0 < blockInterval cfg \<and>
      rem (rem now (epochInterval cfg)) (blockInterval cfg) = 0 \<and>
      GetValidators (DposContext ec) = Inr validators \<and> validators \<noteq> [] \<longrightarrow>
        (let idx = ((now mod epochInterval cfg) div blockInterval cfg)
                     mod int (length validators)
         in 0 \<le> idx \<and> idx < int (length validators) \<and>
            rem (quo (rem now (epochInterval cfg)) (blockInterval cfg))
              (int (length validators)) = idx \<and>
            lookupValidator cfg ec now = Inr (validators ! nat idx)))
   \<and> (\<exists>cfg ec now validators.
      now < 0 \<and> 0 < epochInterval cfg \<and> 0 < blockInterval cfg \<and>
      rem (rem now (epochInterval cfg)) (blockInterval cfg) = 0 \<and>
      GetValidators (DposContext ec) = Inr validators \<and> validators \<noteq> [] \<and>
      rem (quo (rem now (epochInterval cfg)) (blockInterval cfg))
        (int (length validators)) < 0 \<and>
      lookupValidator cfg ec now = Inl (Panic IndexOutOfRange))"
proof (intro conjI allI impI)
  fix cfg :: config and ec :: epoch_context and now :: int
    and validators :: "Address list"
  assume h: "0 \<le> now \<and> 0 < epochInterval cfg \<and> 0 < blockInterval cfg \<and>
      rem (rem now (epochInterval cfg)) (blockInterval cfg) = 0 \<and>
      GetValidators (DposContext ec) = Inr validators \<and> validators \<noteq> []"
  let ?n = "int (length validators)"
  let ?idx = "((now mod epochInterval cfg) div blockInterval cfg) mod ?n"
  from h have n: "0 < ?n" by simp
  from h have r1: "rem now (epochInterval cfg) = now mod epochInterval cfg"
    by (simp add: rem_nonneg)
  from h have "0 \<le> now mod epochInterval cfg" by simp
  with h have q: "quo (now mod epochInterval cfg) (blockInterval cfg)
      = (now mod epochInterval cfg) div blockInterval cfg"
    by (simp add: quo_nonneg)
  from h have "0 \<le> (now mod epochInterval cfg) div blockInterval cfg"
    by (simp add: pos_imp_zdiv_nonneg_iff)
  with n have r2: "rem ((now mod epochInterval cfg) div blockInterval cfg) ?n = ?idx"
    by (simp add: rem_nonneg)
  have b: "0 \<le> ?idx" "?idx < ?n" using n by simp_all
  have "lookupValidator cfg ec now = Inr (validators ! nat ?idx)"
    using h b lookupValidator_aligned [of cfg now ec validators]
    by (simp add: r1 q r2 Let_def)
  with b r1 q r2 show "let idx = ?idx in 0 \<le> idx \<and> idx < ?n \<and>
      rem (quo (rem now (epochInterval cfg)) (blockInterval cfg)) ?n = idx \<and>
      lookupValidator cfg ec now = Inr (validators ! nat idx)"
    by (simp add: Let_def)
next
  show "\<exists>cfg ec now validators.
      now < 0 \<and> 0 < epochInterval cfg \<and> 0 < blockInterval cfg \<and>
      rem (rem now (epochInterval cfg)) (blockInterval cfg) = 0 \<and>
      GetValidators (DposContext ec) = Inr validators \<and> validators \<noteq> [] \<and>
      rem (quo (rem now (epochInterval cfg)) (blockInterval cfg))
        (int (length validators)) < 0 \<and>
      lookupValidator cfg ec now = Inl (Panic IndexOutOfRange)"
    by (rule exI [of _ cfgEx], rule exI [of _ ecEx], rule exI [of _ "- 20"],
        rule exI [of _ "[1, 2, 3]"])
       (simp add: cfgEx_def ecEx_def dcEx_def lookupValidator_def GetValidators_def
          rem_def quo_def)
qed

theorem lookupValidator_index_in_bounds_witness:
  "(0::int) \<le> 50 \<and> 0 < epochInterval cfgEx \<and> 0 < blockInterval cfgEx \<and>
   rem (rem 50 (epochInterval cfgEx)) (blockInterval cfgEx) = 0 \<and>
   GetValidators (DposContext ecEx) = Inr [1, 2, 3] \<and>
   lookupValidator cfgEx ecEx 50 = Inr 3"
  using lookupValidator_index_in_bounds
    [THEN conjunct1, rule_format, of 50 cfgEx ecEx "[1, 2, 3]"]
  by (simp add: cfgEx_def ecEx_def dcEx_def GetValidators_def rem_def quo_def)

section \<open>The vote tally\<close>

lemma tallyDelegators_apply:
  "ds \<noteq> [] \<Longrightarrow> tallyDelegators bal c ds votes x =
     (if x = c
      then Some ((case votes c of None \<Rightarrow> 0 | Some sc \<Rightarrow> sc) + sum_list (map bal ds))
      else votes x)"
proof (induction ds arbitrary: votes)
  case Nil
  then show ?case by simp
next
  case (Cons d ds)
  show ?case
  proof (cases "ds = []")
    case True
    then show ?thesis by simp
  next
    case False
    then show ?thesis by (simp add: Cons.IH Let_def add.assoc)
  qed
qed

lemma tallyDelegators_eq:
  "ds \<noteq> [] \<Longrightarrow> tallyDelegators bal c ds votes =
     votes(c \<mapsto> (case votes c of None \<Rightarrow> 0 | Some sc \<Rightarrow> sc) + sum_list (map bal ds))"
  by (rule ext) (simp add: tallyDelegators_apply)

lemma tallyCandidates_step:
  "tallyCandidates ec (c # cs) votes =
     tallyCandidates ec cs
       (votes(c \<mapsto> (if delegatorsOf (DposContext ec) c = [] then 0
                     else (case votes c of None \<Rightarrow> 0 | Some sc \<Rightarrow> sc)
                          + sum_list (map (statedb ec) (delegatorsOf (DposContext ec) c)))))"
proof (cases "delegatorsOf (DposContext ec) c")
  case Nil
  then show ?thesis by simp
next
  case (Cons d ds)
  have "tallyDelegators (statedb ec) c (d # ds) votes =
      votes(c \<mapsto> (case votes c of None \<Rightarrow> 0 | Some sc \<Rightarrow> sc)
              + sum_list (map (statedb ec) (d # ds)))"
    by (rule tallyDelegators_eq) simp
  then show ?thesis
    by (simp only: tallyCandidates.simps Cons list.case list.distinct if_False)
qed

lemma tallyCandidates_dom:
  "dom (tallyCandidates ec cs votes) = dom votes \<union> set cs"
proof (induction cs arbitrary: votes)
  case Nil
  then show ?case by simp
next
  case (Cons c cs)
  show ?case unfolding tallyCandidates_step Cons.IH by auto
qed

lemma tallyCandidates_other:
  "c \<notin> set cs \<Longrightarrow> tallyCandidates ec cs votes c = votes c"
proof (induction cs arbitrary: votes)
  case Nil
  then show ?case by simp
next
  case (Cons a cs)
  then show ?case unfolding tallyCandidates_step by simp
qed

lemma tallyCandidates_weight:
  "distinct cs \<Longrightarrow> c \<in> set cs \<Longrightarrow> votes c = None \<Longrightarrow>
     tallyCandidates ec cs votes c =
       Some (sum_list (map (statedb ec) (delegatorsOf (DposContext ec) c)))"
proof (induction cs arbitrary: votes)
  case Nil
  then show ?case by simp
next
  case (Cons a cs)
  show ?case
  proof (cases "a = c")
    case True
    with Cons.prems have "c \<notin> set cs" by simp
    then show ?thesis
      unfolding tallyCandidates_step using True Cons.prems(3)
      by (simp add: tallyCandidates_other)
  next
    case False
    with Cons.prems have "distinct cs" "c \<in> set cs" by simp_all
    then show ?thesis
      unfolding tallyCandidates_step using False Cons.prems(3)
      by (simp add: Cons.IH)
  qed
qed

text \<open>
  C1. \<open>countVotes\<close> returns the no-candidates error exactly when the candidate index is
  empty, and no other error. Otherwise the keys of the mapping returned are exactly the
  candidates of the index and, the keys of the index being unique, the weight of every
  candidate is the sum over its delegators of their balances, which is zero for a
  candidate without delegators.
\<close>

theorem countVotes_tally:
  "(countVotes ec = Inl ErrNoCandidates \<longleftrightarrow> candidateTrie (DposContext ec) = [])
   \<and> (\<forall>err. countVotes ec = Inl err \<longrightarrow> err = ErrNoCandidates)
   \<and> (\<forall>votes. countVotes ec = Inr votes \<longrightarrow>
         dom votes = set (candidateTrie (DposContext ec)) \<and>
         (distinct (candidateTrie (DposContext ec)) \<longrightarrow>
            (\<forall>c \<in> set (candidateTrie (DposContext ec)).
               votes c = Some (sum_list (map (statedb ec) (delegatorsOf (DposContext ec) c))) \<and>
               (delegatorsOf (DposContext ec) c = [] \<longrightarrow> votes c = Some 0))))"
proof (cases "candidateTrie (DposContext ec)")
  case Nil
  then show ?thesis by (simp add: countVotes_def)
next
  case (Cons c cs)
  then have cv: "countVotes ec = Inr (tallyCandidates ec (c # cs) Map.empty)"
    by (simp add: countVotes_def)
  have d: "dom (tallyCandidates ec (c # cs) Map.empty) = set (c # cs)"
    by (simp only: tallyCandidates_dom) simp
  have w: "distinct (c # cs) \<Longrightarrow> x \<in> set (c # cs) \<Longrightarrow>
      tallyCandidates ec (c # cs) Map.empty x =
        Some (sum_list (map (statedb ec) (delegatorsOf (DposContext ec) x)))" for x
    by (rule tallyCandidates_weight) simp_all
  have w0: "distinct (c # cs) \<Longrightarrow> x \<in> set (c # cs) \<Longrightarrow>
      delegatorsOf (DposContext ec) x = [] \<Longrightarrow>
      tallyCandidates ec (c # cs) Map.empty x = Some 0" for x
    using w [of x] by simp
  show ?thesis
    unfolding cv Cons using d w w0 by (simp del: tallyCandidates.simps distinct.simps set_simps) 
qed

theorem countVotes_tally_witness:
  "distinct (candidateTrie (DposContext ecEx)) \<and>
   (\<exists>votes. countVotes ecEx = Inr votes \<and> dom votes = {1, 2, 3, 4, 5} \<and>
      votes 1 = Some 12 \<and> votes 2 = Some 0 \<and> votes 3 = Some 7)"
proof -
  obtain votes where v: "countVotes ecEx = Inr votes"
    by (simp add: countVotes_def ecEx_def dcEx_def)
  have d: "distinct (candidateTrie (DposContext ecEx))"
    by (simp add: ecEx_def dcEx_def)
  from countVotes_tally [of ecEx] v d
  have "dom votes = set (candidateTrie (DposContext ecEx)) \<and>
      (\<forall>c \<in> set (candidateTrie (DposContext ecEx)).
         votes c = Some (sum_list (map (statedb ecEx) (delegatorsOf (DposContext ecEx) c))))"
    by blast
  then have "dom votes = {1, 2, 3, 4, 5} \<and> votes 1 = Some 12 \<and> votes 2 = Some 0 \<and> votes 3 = Some 7"
    by (simp add: ecEx_def dcEx_def delegatorsOf_def insert_commute)
  with v d show ?thesis by blast
qed

section \<open>Strings are totally ordered\<close>

lemma str_less_irrefl: "\<not> str_less s s"
  by (induction s) simp_all

lemma str_less_trans: "str_less a b \<Longrightarrow> str_less b c \<Longrightarrow> str_less a c"
proof (induction a b arbitrary: c rule: str_less.induct)
  case 1
  then show ?case by simp
next
  case (2 y ys)
  then show ?case by (cases c) simp_all
next
  case (3 x xs)
  then show ?case by simp
next
  case (4 x xs y ys)
  then show ?case by (cases c) auto
qed

lemma str_less_total: "a \<noteq> b \<Longrightarrow> str_less a b \<or> str_less b a"
proof (induction a b rule: str_less.induct)
  case (4 x xs y ys)
  show ?case
  proof (cases "x = y")
    case True
    with 4 show ?thesis by simp
  next
    case False
    then have "(of_char x :: nat) \<noteq> of_char y" by simp
    then have "(of_char x :: nat) < of_char y \<or> (of_char y :: nat) < of_char x"
      by linarith
    then show ?thesis by auto
  qed
qed simp_all

lemma str_less_asym: "str_less a b \<Longrightarrow> \<not> str_less b a"
  using str_less_trans [of a b a] str_less_irrefl [of a] by blast

section \<open>The comparator\<close>

lemma Less_iff:
  "Less String a b \<longleftrightarrow>
     weight a > weight b \<or>
     (weight a = weight b \<and> str_less (String (address a)) (String (address b)))"
  by (auto simp: Less_def)

lemma Less_irrefl: "\<not> Less String a a"
  by (simp add: Less_iff str_less_irrefl)

lemma Less_trans: "Less String a b \<Longrightarrow> Less String b c \<Longrightarrow> Less String a c"
  unfolding Less_iff using str_less_trans by fastforce

lemma Less_asym: "Less String a b \<Longrightarrow> \<not> Less String b a"
  using Less_trans [of String a b a] Less_irrefl [of String a] by blast

lemma Less_total:
  fixes a b :: sortableAddress
  assumes "inj String" and "a \<noteq> b"
  shows "Less String a b \<or> Less String b a"
proof (cases "weight a = weight b")
  case True
  with \<open>a \<noteq> b\<close> have "address a \<noteq> address b" by (cases a, cases b) auto
  with \<open>inj String\<close> have "String (address a) \<noteq> String (address b)"
    by (auto dest: injD)
  then show ?thesis using True str_less_total by (auto simp: Less_iff)
next
  case False
  then show ?thesis by (auto simp: Less_iff)
qed

section \<open>Sorting\<close>

lemma mset_insert_by: "mset (insert_by lt x ys) = add_mset x (mset ys)"
  by (induction ys) simp_all

lemma mset_sort_Sort: "mset (sort_Sort lt xs) = mset xs"
  by (induction xs) (simp_all add: sort_Sort_def mset_insert_by)

lemma set_insert_by: "set (insert_by lt x ys) = insert x (set ys)"
  using mset_insert_by [of lt x ys, THEN arg_cong, of set_mset] by simp

lemma sorted_insert_by:
  assumes asym: "\<And>a b. lt a b \<Longrightarrow> \<not> lt b a"
    and trans: "\<And>a b c. lt a b \<Longrightarrow> lt b c \<Longrightarrow> lt a c"
  shows "sorted_wrt (\<lambda>a b. \<not> lt b a) ys \<Longrightarrow> sorted_wrt (\<lambda>a b. \<not> lt b a) (insert_by lt x ys)"
proof (induction ys)
  case Nil
  then show ?case by simp
next
  case (Cons y ys)
  show ?case
  proof (cases "lt x y")
    case True
    have "\<not> lt z x" if "z \<in> set ys" for z
    proof
      assume "lt z x"
      from this True have "lt z y" by (rule trans)
      moreover from Cons.prems that have "\<not> lt z y" by simp
      ultimately show False by contradiction
    qed
    with True Cons.prems show ?thesis by (auto dest: asym)
  next
    case False
    with Cons show ?thesis by (auto simp: set_insert_by)
  qed
qed

lemma sorted_sort_Sort:
  assumes "\<And>a b. lt a b \<Longrightarrow> \<not> lt b a"
    and "\<And>a b c. lt a b \<Longrightarrow> lt b c \<Longrightarrow> lt a c"
  shows "sorted_wrt (\<lambda>a b. \<not> lt b a) (sort_Sort lt xs)"
proof (induction xs)
  case Nil
  then show ?case by (simp add: sort_Sort_def)
next
  case (Cons x xs)
  have "sorted_wrt (\<lambda>a b. \<not> lt b a) (insert_by lt x (sort_Sort lt xs))"
  proof (rule sorted_insert_by)
    show "\<And>a b. lt a b \<Longrightarrow> \<not> lt b a" by (rule assms(1))
    show "\<And>a b c. lt a b \<Longrightarrow> lt b c \<Longrightarrow> lt a c" by (rule assms(2))
    show "sorted_wrt (\<lambda>a b. \<not> lt b a) (sort_Sort lt xs)" by (rule Cons)
  qed
  then show ?case by (simp add: sort_Sort_def)
qed

lemma sorted_wrt_unique:
  assumes total: "\<And>a b. a \<noteq> b \<Longrightarrow> lt a b \<or> lt b a"
  shows "sorted_wrt (\<lambda>a b. \<not> lt b a) xs \<Longrightarrow> sorted_wrt (\<lambda>a b. \<not> lt b a) ys \<Longrightarrow>
     mset xs = mset ys \<Longrightarrow> xs = ys"
proof (induction xs arbitrary: ys)
  case Nil
  then show ?case by simp
next
  case (Cons x xs)
  from Cons.prems(3) obtain y ys' where ys: "ys = y # ys'"
    by (cases ys) auto
  have "x = y"
  proof (rule ccontr)
    assume ne: "x \<noteq> y"
    from Cons.prems(3) ys have "x \<in> set (y # ys')" "y \<in> set (x # xs)"
      by (metis list.set_intros(1) mset_eq_setD)+
    with ne have "x \<in> set ys'" "y \<in> set xs" by auto
    with Cons.prems(1,2) ys have "\<not> lt y x" "\<not> lt x y" by auto
    with total [OF ne] show False by blast
  qed
  moreover from this Cons.prems ys have "xs = ys'"
    by (intro Cons.IH) auto
  ultimately show ?case using ys by simp
qed

lemma sort_Sort_unique:
  assumes "\<And>a b. lt a b \<Longrightarrow> \<not> lt b a"
    and "\<And>a b c. lt a b \<Longrightarrow> lt b c \<Longrightarrow> lt a c"
    and "\<And>a b. a \<noteq> b \<Longrightarrow> lt a b \<or> lt b a"
    and "mset ys = mset xs" and "sorted_wrt (\<lambda>a b. \<not> lt b a) ys"
  shows "ys = sort_Sort lt xs"
proof (rule sorted_wrt_unique)
  show "\<And>a b. a \<noteq> b \<Longrightarrow> lt a b \<or> lt b a" by (rule assms(3))
  show "sorted_wrt (\<lambda>a b. \<not> lt b a) ys" by (rule assms(5))
  show "sorted_wrt (\<lambda>a b. \<not> lt b a) (sort_Sort lt xs)"
    by (rule sorted_sort_Sort) (fact assms(1), fact assms(2))
  show "mset ys = mset (sort_Sort lt xs)"
    by (simp add: assms(4) mset_sort_Sort)
qed

section \<open>The example string form is injective\<close>

lemma hexChar_inj: "a < 16 \<Longrightarrow> b < 16 \<Longrightarrow> hexChar a = hexChar b \<Longrightarrow> a = b"
proof -
  assume a: "a < 16" and b: "b < 16" and e: "hexChar a = hexChar b"
  have d: "distinct ''0123456789abcdef''" by simp
  have "length ''0123456789abcdef'' = 16" by simp
  with a b e d show ?thesis
    unfolding hexChar_def by (metis nth_eq_iff_index_eq)
qed

lemma hexDigits_inj:
  "hexDigits n v = hexDigits n w \<Longrightarrow> v mod 16 ^ n = w mod 16 ^ n"
proof (induction n arbitrary: v w)
  case 0
  then show ?case by simp
next
  case (Suc n)
  from Suc.prems have t: "hexDigits n (v div 16) = hexDigits n (w div 16)"
    and c: "hexChar (v mod 16) = hexChar (w mod 16)"
    by simp_all
  from c have m: "v mod 16 = w mod 16"
    by (rule hexChar_inj [rotated 2]) simp_all
  from t have d: "(v div 16) mod 16 ^ n = (w div 16) mod 16 ^ n"
    by (rule Suc.IH)
  have "v mod 16 ^ Suc n = 16 * ((v div 16) mod 16 ^ n) + v mod 16"
    by (simp add: mod_mult2_eq)
  moreover have "w mod 16 ^ Suc n = 16 * ((w div 16) mod 16 ^ n) + w mod 16"
    by (simp add: mod_mult2_eq)
  ultimately show ?case using m d by simp
qed

lemma inj_hexString: "inj hexString"
proof (rule injI)
  fix a b :: Address
  assume "hexString a = hexString b"
  then have "unat a mod 16 ^ 40 = unat b mod 16 ^ 40"
    unfolding hexString_def by (intro hexDigits_inj) simp
  moreover have "unat a < 16 ^ 40" "unat b < 16 ^ 40"
    using unsigned_less [of a] unsigned_less [of b] by simp_all
  ultimately have "unat a = unat b" by simp
  then show "a = b" by (simp add: word_unat_eq_iff)
qed

lemma sorted_wrt_strict:
  assumes "\<And>a b. a \<noteq> b \<Longrightarrow> lt a b \<or> lt b a"
  shows "sorted_wrt (\<lambda>a b. \<not> lt b a) xs \<Longrightarrow> distinct xs \<Longrightarrow> sorted_wrt lt xs"
proof (induction xs)
  case Nil
  then show ?case by simp
next
  case (Cons a xs)
  have "lt a x" if "x \<in> set xs" for x
  proof -
    from that Cons.prems have "a \<noteq> x" "\<not> lt x a" by auto
    with assms [of a x] show ?thesis by blast
  qed
  with Cons show ?case by simp
qed

lemma Less_hex_1_3: "str_less (hexString 1) (hexString 3)"
  by code_simp

text \<open>
  C6. For an injective string form of addresses, \<open>Less\<close> is a strict total order:
  heavier first and, at equal weight, the smaller address string first; it is
  irreflexive, asymmetric and transitive, and any two entries with distinct addresses
  are ordered one way or the other. The sorted slice is a rearrangement of the input in
  which no entry is \<open>Less\<close> than an earlier one (strictly increasing when the addresses
  are distinct), it is the only such rearrangement, and so sorting the same entries
  again, in whatever order they come, gives the same slice.
\<close>

theorem Less_strict_total_order:
  assumes inj: "inj String"
  shows "(Less String a b \<longleftrightarrow>
            weight b < weight a \<or>
            (weight a = weight b \<and> str_less (String (address a)) (String (address b))))
    \<and> \<not> Less String a a
    \<and> (Less String a b \<longrightarrow> \<not> Less String b a)
    \<and> (Less String a b \<and> Less String b c \<longrightarrow> Less String a c)
    \<and> (address a \<noteq> address b \<longrightarrow> Less String a b \<or> Less String b a)
    \<and> mset (sort_Sort (Less String) xs) = mset xs
    \<and> sorted_wrt (\<lambda>p q. \<not> Less String q p) (sort_Sort (Less String) xs)
    \<and> (distinct (map address xs) \<longrightarrow> sorted_wrt (Less String) (sort_Sort (Less String) xs))
    \<and> (\<forall>ys. mset ys = mset xs \<and> sorted_wrt (\<lambda>p q. \<not> Less String q p) ys \<longrightarrow>
          ys = sort_Sort (Less String) xs)
    \<and> (\<forall>ys. mset ys = mset xs \<longrightarrow>
          sort_Sort (Less String) ys = sort_Sort (Less String) xs)"
proof -
  have total: "p \<noteq> q \<Longrightarrow> Less String p q \<or> Less String q p" for p q
    by (rule Less_total [OF inj])
  have sorted: "sorted_wrt (\<lambda>p q. \<not> Less String q p) (sort_Sort (Less String) zs)" for zs
    by (rule sorted_sort_Sort) (fact Less_asym, fact Less_trans)
  have unique: "ys = sort_Sort (Less String) xs"
    if "mset ys = mset xs" "sorted_wrt (\<lambda>p q. \<not> Less String q p) ys" for ys
    using Less_asym Less_trans total that by (rule sort_Sort_unique)
  have strict: "sorted_wrt (Less String) (sort_Sort (Less String) xs)"
    if d: "distinct (map address xs)"
  proof -
    from d have "distinct xs" by (simp add: distinct_map)
    then have "distinct (sort_Sort (Less String) xs)"
      using mset_sort_Sort [of "Less String" xs] by (metis mset_eq_imp_distinct_iff)
    with sorted [of xs] show ?thesis
      by (rule sorted_wrt_strict [OF total, rotated -2])
  qed
  have again: "sort_Sort (Less String) ys = sort_Sort (Less String) xs"
    if "mset ys = mset xs" for ys
    using that sorted [of ys] by (intro unique) (simp_all add: mset_sort_Sort)
  have tot_addr: "address a \<noteq> address b \<longrightarrow> Less String a b \<or> Less String b a"
    using total [of a b] by auto
  show ?thesis
  proof (intro conjI allI impI)
    show "Less String a b \<longleftrightarrow>
        weight b < weight a \<or>
        (weight a = weight b \<and> str_less (String (address a)) (String (address b)))"
      by (rule Less_iff)
    show "\<not> Less String a a" by (rule Less_irrefl)
    show "\<not> Less String b a" if "Less String a b" using that by (rule Less_asym)
    show "Less String a c" if "Less String a b \<and> Less String b c"
      using that Less_trans by blast
    show "Less String a b \<or> Less String b a" if "address a \<noteq> address b"
      using that tot_addr by blast
    show "mset (sort_Sort (Less String) xs) = mset xs" by (rule mset_sort_Sort)
    show "sorted_wrt (\<lambda>p q. \<not> Less String q p) (sort_Sort (Less String) xs)"
      by (rule sorted)
    show "sorted_wrt (Less String) (sort_Sort (Less String) xs)"
      if "distinct (map address xs)" using that by (rule strict)
    show "ys = sort_Sort (Less String) xs"
      if "mset ys = mset xs \<and> sorted_wrt (\<lambda>p q. \<not> Less String q p) ys" for ys
      using that unique by blast
    show "sort_Sort (Less String) ys = sort_Sort (Less String) xs"
      if "mset ys = mset xs" for ys using that by (rule again)
  qed
qed

theorem Less_strict_total_order_witness:
  "inj hexString
   \<and> Less hexString \<lparr>address = 1, weight = 5\<rparr> \<lparr>address = 3, weight = 5\<rparr>
   \<and> \<not> Less hexString \<lparr>address = 3, weight = 5\<rparr> \<lparr>address = 1, weight = 5\<rparr>
   \<and> sort_Sort (Less hexString)
        [\<lparr>address = 2, weight = 2\<rparr>, \<lparr>address = 3, weight = 5\<rparr>, \<lparr>address = 1, weight = 5\<rparr>]
      = sort_Sort (Less hexString)
        [\<lparr>address = 1, weight = 5\<rparr>, \<lparr>address = 2, weight = 2\<rparr>, \<lparr>address = 3, weight = 5\<rparr>]"
proof -
  note t = Less_strict_total_order [OF inj_hexString,
      of "\<lparr>address = 1, weight = 5\<rparr>" "\<lparr>address = 3, weight = 5\<rparr>" "\<lparr>address = 1, weight = 5\<rparr>"
         "[\<lparr>address = 1, weight = 5\<rparr>, \<lparr>address = 2, weight = 2\<rparr>, \<lparr>address = 3, weight = 5\<rparr>]"]
  from t [THEN conjunct1]
  have 1: "Less hexString \<lparr>address = 1, weight = 5\<rparr> \<lparr>address = 3, weight = 5\<rparr>"
    by (simp add: Less_hex_1_3)
  from t [THEN conjunct2, THEN conjunct2, THEN conjunct1] 1
  have 2: "\<not> Less hexString \<lparr>address = 3, weight = 5\<rparr> \<lparr>address = 1, weight = 5\<rparr>"
    by (rule mp)
  have 3: "sort_Sort (Less hexString)
        [\<lparr>address = 2, weight = 2\<rparr>, \<lparr>address = 3, weight = 5\<rparr>, \<lparr>address = 1, weight = 5\<rparr>]
      = sort_Sort (Less hexString)
        [\<lparr>address = 1, weight = 5\<rparr>, \<lparr>address = 2, weight = 2\<rparr>, \<lparr>address = 3, weight = 5\<rparr>]"
    by (rule t [THEN conjunct2, THEN conjunct2, THEN conjunct2, THEN conjunct2,
          THEN conjunct2, THEN conjunct2, THEN conjunct2, THEN conjunct2, THEN conjunct2,
          rule_format]) simp
  from inj_hexString 1 2 3 show ?thesis by (intro conjI)
qed

section \<open>The evictor\<close>

lemma needKickout_eq:
  "needKickout cfg ec epoch vs acc =
     acc @ map (\<lambda>v. \<lparr>address = v, weight = mintCnt (DposContext ec) epoch v\<rparr>)
             (filter (\<lambda>v. mintCnt (DposContext ec) epoch v < kickoutThreshold cfg ec) vs)"
  by (induction vs arbitrary: acc) (simp_all add: Let_def)

lemma kickedOut_append: "kickedOut (xs @ ys) = kickedOut xs @ kickedOut ys"
  by (induction xs rule: kickedOut.induct) simp_all

lemma countCandidates_le:
  "countCandidates limit c cs \<le> c + int (length cs)"
  by (induction cs arbitrary: c) (simp_all add: add.commute add.left_commute, smt (verit))

lemma kickoutLoop_log:
  "\<exists>k. kickedOut (logged (fst (kickoutLoop cfg epoch c vs ec))) =
         kickedOut (logged ec) @ map address (take k vs)"
proof (induction vs arbitrary: c ec)
  case Nil
  then show ?case by simp
next
  case (Cons v vs)
  show ?case
  proof (cases "c \<le> safeSize cfg")
    case True
    then have "kickedOut (logged (fst (kickoutLoop cfg epoch c (v # vs) ec))) =
        kickedOut (logged ec) @ map address (take 0 (v # vs))"
      by (simp add: kickedOut_append)
    then show ?thesis by blast
  next
    case False
    let ?ec1 = "ec\<lparr>DposContext := (DposContext ec)\<lparr>candidateTrie :=
                    remove1 (address v) (candidateTrie (DposContext ec))\<rparr>,
                  logged := logged ec @ [LogKickout epoch (address v) (weight v)]\<rparr>"
    from False have step: "kickoutLoop cfg epoch c (v # vs) ec =
        kickoutLoop cfg epoch (c - 1) vs ?ec1"
      by (simp add: KickoutCandidate_def)
    from Cons.IH [of "c - 1" ?ec1] obtain k where
      "kickedOut (logged (fst (kickoutLoop cfg epoch (c - 1) vs ?ec1))) =
         kickedOut (logged ?ec1) @ map address (take k vs)" by blast
    then have "kickedOut (logged (fst (kickoutLoop cfg epoch c (v # vs) ec))) =
        kickedOut (logged ec) @ map address (take (Suc k) (v # vs))"
      unfolding step by (simp add: kickedOut_append)
    then show ?thesis by blast
  qed
qed

lemma kickoutLoop_floor:
  assumes "c \<le> int (length (candidateTrie (DposContext ec)))"
  shows "candidateTrie (DposContext (fst (kickoutLoop cfg epoch c vs ec)))
           = candidateTrie (DposContext ec)
       \<or> safeSize cfg
           \<le> int (length (candidateTrie (DposContext (fst (kickoutLoop cfg epoch c vs ec)))))"
  using assms
proof (induction vs arbitrary: c ec)
  case Nil
  then show ?case by simp
next
  case (Cons v vs)
  show ?case
  proof (cases "c \<le> safeSize cfg")
    case True
    then show ?thesis by simp
  next
    case False
    let ?ec1 = "ec\<lparr>DposContext := (DposContext ec)\<lparr>candidateTrie :=
                    remove1 (address v) (candidateTrie (DposContext ec))\<rparr>,
                  logged := logged ec @ [LogKickout epoch (address v) (weight v)]\<rparr>"
    from False have step: "kickoutLoop cfg epoch c (v # vs) ec =
        kickoutLoop cfg epoch (c - 1) vs ?ec1"
      by (simp add: KickoutCandidate_def)
    have len: "int (length (candidateTrie (DposContext ec))) - 1
        \<le> int (length (candidateTrie (DposContext ?ec1)))"
      by (cases "candidateTrie (DposContext ec)") (auto simp: length_remove1)
    with Cons.prems have c1: "c - 1 \<le> int (length (candidateTrie (DposContext ?ec1)))"
      by linarith
    from Cons.IH [OF c1] False c1 show ?thesis
      unfolding step by auto
  qed
qed

lemma kickoutLoop_stops:
  "c \<le> safeSize cfg \<Longrightarrow>
     DposContext (fst (kickoutLoop cfg epoch c vs ec)) = DposContext ec \<and>
     snd (kickoutLoop cfg epoch c vs ec) = None"
  by (cases vs) simp_all

lemma kickoutLoop_epochTrie:
  "epochTrie (DposContext (fst (kickoutLoop cfg epoch c vs ec))) = epochTrie (DposContext ec)"
  by (induction vs arbitrary: c ec) (simp_all add: KickoutCandidate_def)

lemma kickoutValidator_cases:
  "kickoutValidator String cfg epoch ec = (ec, Some ErrFailedToGetValidator)
   \<or> kickoutValidator String cfg epoch ec = (ec, Some ErrNoValidatorKickout)
   \<or> kickoutValidator String cfg epoch ec = (ec, Some (Panic DivideByZero))
   \<or> kickoutValidator String cfg epoch ec = (ec, None)
   \<or> (\<exists>validators. GetValidators (DposContext ec) = Inr validators \<and>
         kickoutValidator String cfg epoch ec =
           kickoutLoop cfg epoch
             (countCandidates
                (int (length (needKickout cfg ec epoch validators [])) + safeSize cfg) 0
                (candidateTrie (DposContext ec)))
             (sort_Sort (Reverse (Less String)) (needKickout cfg ec epoch validators []))
             ec)"
  by (auto simp: kickoutValidator_def Let_def split: sum.splits)

lemma sorted_Reverse_Less:
  "sorted_wrt (\<lambda>p q. \<not> Less String p q) (sort_Sort (Reverse (Less String)) xs)"
proof -
  have "sorted_wrt (\<lambda>p q. \<not> Reverse (Less String) q p) (sort_Sort (Reverse (Less String)) xs)"
  proof (rule sorted_sort_Sort)
    show "\<And>a b. Reverse (Less String) a b \<Longrightarrow> \<not> Reverse (Less String) b a"
      unfolding Reverse_def by (rule Less_asym)
    show "\<And>a b c. Reverse (Less String) a b \<Longrightarrow> Reverse (Less String) b c
        \<Longrightarrow> Reverse (Less String) a c"
      unfolding Reverse_def using Less_trans by blast
  qed
  then show ?thesis by (simp add: Reverse_def)
qed

lemma set_sort_Sort: "set (sort_Sort lt xs) = set xs"
  using mset_sort_Sort [of lt xs] by (rule mset_eq_setD)

text \<open>
  C3, as the code has it. The slice of inactive validators is sorted with \<open>sort.Reverse\<close>,
  so \<open>kickoutValidator\<close> evicts in ascending order of mint count, the validators that
  minted least first, and among equal counts the larger address string first: of two
  addresses evicted one after the other, the earlier has a count that is not larger, and
  at equal counts an address string that is not smaller. Every address evicted has a
  count below the threshold, and the addresses evicted are the first ones of the sorted
  slice of inactive validators, none skipped.
\<close>

theorem kickoutValidator_order:
  assumes run: "kickoutValidator String cfg epoch ec = (ec', err)"
  shows "\<exists>evicted.
      kickedOut (logged ec') = kickedOut (logged ec) @ evicted \<and>
      sorted_wrt
        (\<lambda>a b. mintCnt (DposContext ec) epoch a \<le> mintCnt (DposContext ec) epoch b \<and>
               (mintCnt (DposContext ec) epoch a = mintCnt (DposContext ec) epoch b \<longrightarrow>
                  \<not> str_less (String a) (String b)))
        evicted \<and>
      (\<forall>a \<in> set evicted. mintCnt (DposContext ec) epoch a < kickoutThreshold cfg ec) \<and>
      (\<forall>validators. GetValidators (DposContext ec) = Inr validators \<longrightarrow>
         (\<exists>k. evicted =
               map address
                 (take k (sort_Sort (Reverse (Less String))
                            (needKickout cfg ec epoch validators [])))))"
proof -
  let ?R = "\<lambda>a b. mintCnt (DposContext ec) epoch a \<le> mintCnt (DposContext ec) epoch b \<and>
               (mintCnt (DposContext ec) epoch a = mintCnt (DposContext ec) epoch b \<longrightarrow>
                  \<not> str_less (String a) (String b))"
  let ?P = "\<lambda>evicted. kickedOut (logged ec') = kickedOut (logged ec) @ evicted \<and>
      sorted_wrt ?R evicted \<and>
      (\<forall>a \<in> set evicted. mintCnt (DposContext ec) epoch a < kickoutThreshold cfg ec) \<and>
      (\<forall>validators. GetValidators (DposContext ec) = Inr validators \<longrightarrow>
         (\<exists>k. evicted =
               map address
                 (take k (sort_Sort (Reverse (Less String))
                            (needKickout cfg ec epoch validators [])))))"
  from kickoutValidator_cases [of String cfg epoch ec]
  consider "ec' = ec"
    | validators where "GetValidators (DposContext ec) = Inr validators"
        "kickoutValidator String cfg epoch ec =
           kickoutLoop cfg epoch
             (countCandidates
                (int (length (needKickout cfg ec epoch validators [])) + safeSize cfg) 0
                (candidateTrie (DposContext ec)))
             (sort_Sort (Reverse (Less String)) (needKickout cfg ec epoch validators []))
             ec"
    using run by auto
  then show ?thesis
  proof cases
    case 1
    have "\<exists>k. [] = map address (take k xs)" for xs :: "sortableAddress list"
      by (rule exI [of _ 0]) simp
    with 1 have "?P []" by simp
    then show ?thesis by blast
  next
    case (2 validators)
    let ?need = "needKickout cfg ec epoch validators []"
    let ?sorted = "sort_Sort (Reverse (Less String)) ?need"
    let ?c = "countCandidates (int (length ?need) + safeSize cfg) 0
                (candidateTrie (DposContext ec))"
    from 2(2) run have ec': "ec' = fst (kickoutLoop cfg epoch ?c ?sorted ec)"
      by (metis fst_conv)
    from kickoutLoop_log [of cfg epoch ?c ?sorted ec] obtain k where
      log: "kickedOut (logged ec') = kickedOut (logged ec) @ map address (take k ?sorted)"
      unfolding ec' by blast
    have elems: "weight p = mintCnt (DposContext ec) epoch (address p) \<and>
        mintCnt (DposContext ec) epoch (address p) < kickoutThreshold cfg ec"
      if "p \<in> set ?sorted" for p
      using that by (auto simp: set_sort_Sort needKickout_eq)
    have "sorted_wrt (\<lambda>p q. \<not> Less String p q) ?sorted"
      by (rule sorted_Reverse_Less)
    then have "sorted_wrt (\<lambda>p q. ?R (address p) (address q)) ?sorted"
      by (rule sorted_wrt_mono_rel [rotated]) (use elems in \<open>auto simp: Less_iff\<close>)
    then have "sorted_wrt (\<lambda>p q. ?R (address p) (address q)) (take k ?sorted)"
      by (rule sorted_wrt_take)
    then have s: "sorted_wrt ?R (map address (take k ?sorted))"
      by (simp add: sorted_wrt_map)
    have b: "\<forall>a \<in> set (map address (take k ?sorted)).
        mintCnt (DposContext ec) epoch a < kickoutThreshold cfg ec"
      using elems by (auto dest: in_set_takeD)
    have p: "\<forall>vs. GetValidators (DposContext ec) = Inr vs \<longrightarrow>
         (\<exists>k'. map address (take k ?sorted) =
               map address
                 (take k' (sort_Sort (Reverse (Less String))
                            (needKickout cfg ec epoch vs []))))"
      using 2(1) by auto
    from log s b p have "?P (map address (take k ?sorted))" by (intro conjI)
    then show ?thesis by blast
  qed
qed

theorem kickoutValidator_order_witness:
  "kickedOut (logged (fst (kickoutValidator hexString cfgEx 1 ecEx))) = [2, 3, 1]
   \<and> mintCnt (DposContext ecEx) 1 2 \<le> mintCnt (DposContext ecEx) 1 3
   \<and> mintCnt (DposContext ecEx) 1 3 = mintCnt (DposContext ecEx) 1 1
   \<and> \<not> str_less (hexString 3) (hexString 1)
   \<and> mintCnt (DposContext ecEx) 1 1 < kickoutThreshold cfgEx ecEx"
proof -
  have run: "kickoutValidator hexString cfgEx 1 ecEx =
      (fst (kickoutValidator hexString cfgEx 1 ecEx),
       snd (kickoutValidator hexString cfgEx 1 ecEx))"
    by simp
  have log: "kickedOut (logged (fst (kickoutValidator hexString cfgEx 1 ecEx))) = [2, 3, 1]"
    by code_simp
  have eq: "mintCnt (DposContext ecEx) 1 3 = mintCnt (DposContext ecEx) 1 1"
    by code_simp
  from kickoutValidator_order [OF run] obtain evicted where
    e: "kickedOut (logged (fst (kickoutValidator hexString cfgEx 1 ecEx))) =
          kickedOut (logged ecEx) @ evicted"
    and s: "sorted_wrt
        (\<lambda>a b. mintCnt (DposContext ecEx) 1 a \<le> mintCnt (DposContext ecEx) 1 b \<and>
               (mintCnt (DposContext ecEx) 1 a = mintCnt (DposContext ecEx) 1 b \<longrightarrow>
                  \<not> str_less (hexString a) (hexString b)))
        evicted"
    and b: "\<forall>a \<in> set evicted.
          mintCnt (DposContext ecEx) 1 a < kickoutThreshold cfgEx ecEx"
    by blast
  have "kickedOut (logged ecEx) = []" by code_simp
  with e log have "evicted = [2, 3, 1]" by simp
  with s b eq log show ?thesis by simp
qed

text \<open>
  C3 as stated has the validators with the higher counts evicted first. For A = 1 with
  count 5, B = 2 with count 2 and C = 3 with count 5, all below the threshold of 1440
  and A before C as strings, the evictions are B, then C, then A: B is first, not last.
\<close>

theorem kickoutValidator_order_counterexample:
  "mintCnt (DposContext ecEx) 1 1 = 5 \<and> mintCnt (DposContext ecEx) 1 2 = 2 \<and>
   mintCnt (DposContext ecEx) 1 3 = 5 \<and> kickoutThreshold cfgEx ecEx = 1440 \<and>
   GetValidators (DposContext ecEx) = Inr [1, 2, 3] \<and>
   str_less (hexString 1) (hexString 3) \<and>
   kickedOut (logged (fst (kickoutValidator hexString cfgEx 1 ecEx))) = [2, 3, 1]"
  by code_simp

text \<open>
  C4, as the code has it. Whatever \<open>kickoutValidator\<close> returns, it leaves the candidate
  index as it was or with at least \<open>safeSize\<close> candidates. The eviction loop stops,
  returning success and evicting nothing more, as soon as the tracked count is at or
  below \<open>safeSize\<close>; while the count is above \<open>safeSize\<close> it evicts, and the count it
  goes on with is still at least \<open>safeSize\<close>: it can reach \<open>safeSize\<close> but not go
  below.
\<close>

theorem kickoutValidator_safe_floor:
  assumes run: "kickoutValidator String cfg epoch ec = (ec', err)"
  shows "(candidateTrie (DposContext ec') = candidateTrie (DposContext ec)
          \<or> safeSize cfg \<le> int (length (candidateTrie (DposContext ec'))))
    \<and> (\<forall>candidateCount validators.
          candidateCount \<le> safeSize cfg \<longrightarrow>
            DposContext (fst (kickoutLoop cfg epoch candidateCount validators ec))
              = DposContext ec \<and>
            snd (kickoutLoop cfg epoch candidateCount validators ec) = None)
    \<and> (\<forall>candidateCount validator rest.
          safeSize cfg < candidateCount \<longrightarrow>
            kickoutLoop cfg epoch candidateCount (validator # rest) ec =
              kickoutLoop cfg epoch (candidateCount - 1) rest
                (ec\<lparr>DposContext := (DposContext ec)\<lparr>candidateTrie :=
                       remove1 (address validator) (candidateTrie (DposContext ec))\<rparr>,
                    logged := logged ec @
                       [LogKickout epoch (address validator) (weight validator)]\<rparr>) \<and>
            safeSize cfg \<le> candidateCount - 1)"
proof (intro conjI allI impI)
  from kickoutValidator_cases [of String cfg epoch ec]
  consider "ec' = ec"
    | validators where
        "kickoutValidator String cfg epoch ec =
           kickoutLoop cfg epoch
             (countCandidates
                (int (length (needKickout cfg ec epoch validators [])) + safeSize cfg) 0
                (candidateTrie (DposContext ec)))
             (sort_Sort (Reverse (Less String)) (needKickout cfg ec epoch validators []))
             ec"
    using run by auto
  then show "candidateTrie (DposContext ec') = candidateTrie (DposContext ec)
      \<or> safeSize cfg \<le> int (length (candidateTrie (DposContext ec')))"
  proof cases
    case 1
    then show ?thesis by simp
  next
    case (2 validators)
    let ?need = "needKickout cfg ec epoch validators []"
    let ?sorted = "sort_Sort (Reverse (Less String)) ?need"
    let ?c = "countCandidates (int (length ?need) + safeSize cfg) 0
                (candidateTrie (DposContext ec))"
    from 2 run have ec': "ec' = fst (kickoutLoop cfg epoch ?c ?sorted ec)"
      by (metis fst_conv)
    have "?c \<le> int (length (candidateTrie (DposContext ec)))"
      using countCandidates_le [of "int (length ?need) + safeSize cfg" 0
          "candidateTrie (DposContext ec)"] by simp
    then show ?thesis unfolding ec' by (rule kickoutLoop_floor)
  qed
next
  fix candidateCount validators
  assume "candidateCount \<le> safeSize cfg"
  then show "DposContext (fst (kickoutLoop cfg epoch candidateCount validators ec))
      = DposContext ec"
    and "snd (kickoutLoop cfg epoch candidateCount validators ec) = None"
    using kickoutLoop_stops by blast+
next
  fix candidateCount validator rest
  assume "safeSize cfg < candidateCount"
  then show "kickoutLoop cfg epoch candidateCount (validator # rest) ec =
      kickoutLoop cfg epoch (candidateCount - 1) rest
        (ec\<lparr>DposContext := (DposContext ec)\<lparr>candidateTrie :=
               remove1 (address validator) (candidateTrie (DposContext ec))\<rparr>,
            logged := logged ec @
               [LogKickout epoch (address validator) (weight validator)]\<rparr>)"
    and "safeSize cfg \<le> candidateCount - 1"
    by (simp_all add: KickoutCandidate_def)
qed

theorem kickoutValidator_safe_floor_witness:
  "(\<exists>ec' err. kickoutValidator hexString cfgFloor 1 ecFloor = (ec', err) \<and>
      candidateTrie (DposContext ec') \<noteq> candidateTrie (DposContext ecFloor) \<and>
      safeSize cfgFloor \<le> int (length (candidateTrie (DposContext ec'))))"
proof -
  have run: "kickoutValidator hexString cfgFloor 1 ecFloor =
      (fst (kickoutValidator hexString cfgFloor 1 ecFloor),
       snd (kickoutValidator hexString cfgFloor 1 ecFloor))"
    by simp
  have ne: "candidateTrie (DposContext (fst (kickoutValidator hexString cfgFloor 1 ecFloor)))
      \<noteq> candidateTrie (DposContext ecFloor)"
    by code_simp
  from kickoutValidator_safe_floor [OF run, THEN conjunct1] ne
  have "safeSize cfgFloor \<le> int (length (candidateTrie
      (DposContext (fst (kickoutValidator hexString cfgFloor 1 ecFloor)))))"
    by blast
  with run ne show ?thesis by blast
qed

text \<open>
  C4 as stated has the loop stop before a removal that would bring the tracked count to
  \<open>safeSize\<close>. With a safe size of 3, four candidates and three inactive validators the
  tracked count starts at 4; the first eviction is carried out and brings it to 3, and
  only then the loop stops, as the log shows.
\<close>

theorem kickoutValidator_safe_floor_counterexample:
  "safeSize cfgFloor = 3 \<and>
   countCandidates (3 + safeSize cfgFloor) 0 (candidateTrie (DposContext ecFloor)) = 4 \<and>
   candidateTrie (DposContext ecFloor) = [1, 2, 3, 4] \<and>
   candidateTrie (DposContext (fst (kickoutValidator hexString cfgFloor 1 ecFloor)))
     = [1, 3, 4] \<and>
   logged (fst (kickoutValidator hexString cfgFloor 1 ecFloor))
     = [LogKickout 1 2 2, LogNoMoreKickout 1 3 2] \<and>
   snd (kickoutValidator hexString cfgFloor 1 ecFloor) = None"
  by code_simp

lemma wrap64_id: "in_int64 x \<Longrightarrow> wrap64 x = x"
  by (simp add: in_int64_def wrap64_def)

lemma div64_nonneg:
  "0 \<le> a \<Longrightarrow> in_int64 a \<Longrightarrow> 0 < b \<Longrightarrow> div64 a b = a div b \<and> 0 \<le> a div b \<and> in_int64 (a div b)"
proof -
  assume a: "0 \<le> a" "in_int64 a" and b: "0 < b"
  then have "0 \<le> a div b" by (simp add: pos_imp_zdiv_nonneg_iff)
  moreover from a b have "a div b \<le> a div 1"
    by (intro zdiv_mono2) simp_all
  ultimately have "in_int64 (a div b)" using a by (simp add: in_int64_def)
  then show ?thesis using a b \<open>0 \<le> a div b\<close>
    by (simp add: div64_def quo_nonneg wrap64_id)
qed

lemma div64_nonpos:
  "a \<le> 0 \<Longrightarrow> in_int64 a \<Longrightarrow> 0 < b \<Longrightarrow>
     div64 a b = - ((- a) div b) \<and> - ((- a) div b) \<le> 0 \<and> in_int64 (- ((- a) div b))"
proof -
  assume a: "a \<le> 0" "in_int64 a" and b: "0 < b"
  then have n: "0 \<le> (- a) div b" by (simp add: pos_imp_zdiv_nonneg_iff)
  from a b have "(- a) div b \<le> (- a) div 1"
    by (intro zdiv_mono2) simp_all
  with n a have r: "in_int64 (- ((- a) div b))" by (simp add: in_int64_def)
  have q: "quo a b = - ((- a) div b)"
  proof (cases "a = 0")
    case True
    then show ?thesis by (simp add: quo_def)
  next
    case False
    with a b show ?thesis by (simp add: quo_def sgn_if)
  qed
  from q r n show ?thesis by (simp add: div64_def wrap64_id)
qed

text \<open>
  C7. The validators collected for eviction are exactly those of the validator list whose
  mint count for the epoch is strictly below the threshold, each recorded with its
  count. The count of a validator is read from the record stored under the epoch, as
  \<open>uint64\<close>, followed by the validator: it is that record as \<open>int64\<close>, and zero when
  there is no such record. The threshold is
  \<open>epochDuration / blockInterval / maxValidatorSize / 2\<close> in Go's 64-bit division, which
  truncates towards zero: for positive constants it is the integer quotient when the
  duration is not negative, and the negated quotient of the negated duration when it is
  not positive. \<open>epochDuration\<close> is \<open>epochInterval\<close> unless the 64-bit difference
  \<open>TimeStamp - timeOfFirstBlock\<close> is smaller, and is that difference then.
  \<open>kickoutValidator\<close> goes on with exactly the validators collected.
\<close>

theorem needKickout_inactive:
  "needKickout cfg ec epoch validators [] =
      map (\<lambda>v. \<lparr>address = v, weight = mintCnt (DposContext ec) epoch v\<rparr>)
        (filter (\<lambda>v. mintCnt (DposContext ec) epoch v < kickoutThreshold cfg ec) validators)
   \<and> (\<forall>v. v \<in> address ` set (needKickout cfg ec epoch validators []) \<longleftrightarrow>
          v \<in> set validators \<and>
          mintCnt (DposContext ec) epoch v < kickoutThreshold cfg ec)
   \<and> (\<forall>v. mintCnt (DposContext ec) epoch v =
          (case map_of (mintCntTrie (DposContext ec)) (word_of_int epoch, v) of
             None \<Rightarrow> 0
           | Some cnt \<Rightarrow> sint cnt))
   \<and> kickoutThreshold cfg ec =
       div64 (div64 (div64 (epochDuration cfg ec) (blockInterval cfg))
                (maxValidatorSize cfg)) 2
   \<and> epochDuration cfg ec =
       (if sub64 (TimeStamp ec) (timeOfFirstBlock cfg) < epochInterval cfg
        then sub64 (TimeStamp ec) (timeOfFirstBlock cfg) else epochInterval cfg)
   \<and> sub64 (TimeStamp ec) (timeOfFirstBlock cfg) =
       (TimeStamp ec - timeOfFirstBlock cfg + 2 ^ 63) mod 2 ^ 64 - 2 ^ 63
   \<and> (- (2 ^ 63) \<le> TimeStamp ec - timeOfFirstBlock cfg \<and>
       TimeStamp ec - timeOfFirstBlock cfg < 2 ^ 63 \<longrightarrow>
        sub64 (TimeStamp ec) (timeOfFirstBlock cfg) = TimeStamp ec - timeOfFirstBlock cfg)
   \<and> (0 \<le> epochDuration cfg ec \<and> epochDuration cfg ec < 2 ^ 63 \<and>
       0 < blockInterval cfg \<and> 0 < maxValidatorSize cfg \<longrightarrow>
        kickoutThreshold cfg ec =
          epochDuration cfg ec div blockInterval cfg div maxValidatorSize cfg div 2)
   \<and> (epochDuration cfg ec \<le> 0 \<and> - (2 ^ 63) \<le> epochDuration cfg ec \<and>
       0 < blockInterval cfg \<and> 0 < maxValidatorSize cfg \<longrightarrow>
        kickoutThreshold cfg ec =
          - ((- epochDuration cfg ec) div blockInterval cfg div maxValidatorSize cfg div 2))
   \<and> (GetValidators (DposContext ec) = Inr validators \<and> validators \<noteq> [] \<and>
       blockInterval cfg \<noteq> 0 \<and> maxValidatorSize cfg \<noteq> 0 \<longrightarrow>
        kickoutValidator String cfg epoch ec =
          (if needKickout cfg ec epoch validators [] = [] then (ec, None)
           else kickoutLoop cfg epoch
                  (countCandidates
                     (int (length (needKickout cfg ec epoch validators [])) + safeSize cfg)
                     0 (candidateTrie (DposContext ec)))
                  (sort_Sort (Reverse (Less String))
                     (needKickout cfg ec epoch validators []))
                  ec))"
proof (intro conjI allI impI)
  show "needKickout cfg ec epoch validators [] =
      map (\<lambda>v. \<lparr>address = v, weight = mintCnt (DposContext ec) epoch v\<rparr>)
        (filter (\<lambda>v. mintCnt (DposContext ec) epoch v < kickoutThreshold cfg ec) validators)"
    by (simp add: needKickout_eq)
  show "v \<in> address ` set (needKickout cfg ec epoch validators []) \<longleftrightarrow>
      v \<in> set validators \<and> mintCnt (DposContext ec) epoch v < kickoutThreshold cfg ec" for v
    by (auto simp: needKickout_eq image_iff)
  show "mintCnt (DposContext ec) epoch v =
      (case map_of (mintCntTrie (DposContext ec)) (word_of_int epoch, v) of
         None \<Rightarrow> 0
       | Some cnt \<Rightarrow> sint cnt)" for v
    by (simp add: mintCnt_def mintCntKey_def)
  show "kickoutThreshold cfg ec =
       div64 (div64 (div64 (epochDuration cfg ec) (blockInterval cfg))
                (maxValidatorSize cfg)) 2"
    by (simp add: kickoutThreshold_def)
  show "epochDuration cfg ec =
       (if sub64 (TimeStamp ec) (timeOfFirstBlock cfg) < epochInterval cfg
        then sub64 (TimeStamp ec) (timeOfFirstBlock cfg) else epochInterval cfg)"
    by (simp add: epochDuration_def)
  show "sub64 (TimeStamp ec) (timeOfFirstBlock cfg) =
       (TimeStamp ec - timeOfFirstBlock cfg + 2 ^ 63) mod 2 ^ 64 - 2 ^ 63"
    by (simp add: sub64_def wrap64_def)
  show "sub64 (TimeStamp ec) (timeOfFirstBlock cfg) = TimeStamp ec - timeOfFirstBlock cfg"
    if "- (2 ^ 63) \<le> TimeStamp ec - timeOfFirstBlock cfg \<and>
       TimeStamp ec - timeOfFirstBlock cfg < 2 ^ 63"
    using that by (simp add: sub64_def wrap64_id in_int64_def)
  show "kickoutThreshold cfg ec =
      epochDuration cfg ec div blockInterval cfg div maxValidatorSize cfg div 2"
    if h: "0 \<le> epochDuration cfg ec \<and> epochDuration cfg ec < 2 ^ 63 \<and>
       0 < blockInterval cfg \<and> 0 < maxValidatorSize cfg"
  proof -
    from h have r: "in_int64 (epochDuration cfg ec)" by (simp add: in_int64_def)
    from h r have 1: "div64 (epochDuration cfg ec) (blockInterval cfg)
          = epochDuration cfg ec div blockInterval cfg"
      "0 \<le> epochDuration cfg ec div blockInterval cfg"
      "in_int64 (epochDuration cfg ec div blockInterval cfg)"
      using div64_nonneg [of "epochDuration cfg ec" "blockInterval cfg"] by simp_all
    from h 1(2,3) have 2: "div64 (epochDuration cfg ec div blockInterval cfg) (maxValidatorSize cfg)
          = epochDuration cfg ec div blockInterval cfg div maxValidatorSize cfg"
      "0 \<le> epochDuration cfg ec div blockInterval cfg div maxValidatorSize cfg"
      "in_int64 (epochDuration cfg ec div blockInterval cfg div maxValidatorSize cfg)"
      using div64_nonneg [of "epochDuration cfg ec div blockInterval cfg" "maxValidatorSize cfg"]
      by simp_all
    from 2(2,3) have 3: "div64 (epochDuration cfg ec div blockInterval cfg div maxValidatorSize cfg) 2
          = epochDuration cfg ec div blockInterval cfg div maxValidatorSize cfg div 2"
      using div64_nonneg [of "epochDuration cfg ec div blockInterval cfg div maxValidatorSize cfg" 2]
      by simp
    show ?thesis by (simp only: kickoutThreshold_def 1(1) 2(1) 3)
  qed
  show "kickoutThreshold cfg ec =
      - ((- epochDuration cfg ec) div blockInterval cfg div maxValidatorSize cfg div 2)"
    if h: "epochDuration cfg ec \<le> 0 \<and> - (2 ^ 63) \<le> epochDuration cfg ec \<and>
       0 < blockInterval cfg \<and> 0 < maxValidatorSize cfg"
  proof -
    let ?d = "epochDuration cfg ec"
    let ?q1 = "- ((- ?d) div blockInterval cfg)"
    let ?q2 = "- ((- ?d) div blockInterval cfg div maxValidatorSize cfg)"
    let ?q3 = "- ((- ?d) div blockInterval cfg div maxValidatorSize cfg div 2)"
    from h have r: "in_int64 ?d" by (simp add: in_int64_def)
    from h r have 1: "div64 ?d (blockInterval cfg) = ?q1" "?q1 \<le> 0" "in_int64 ?q1"
      using div64_nonpos [of ?d "blockInterval cfg"] by simp_all
    from h 1(2,3) have 2: "div64 ?q1 (maxValidatorSize cfg) = ?q2" "?q2 \<le> 0" "in_int64 ?q2"
      using div64_nonpos [of ?q1 "maxValidatorSize cfg"] by simp_all
    from 2(2,3) have 3: "div64 ?q2 2 = ?q3"
      using div64_nonpos [of ?q2 2] by simp
    show ?thesis by (simp only: kickoutThreshold_def 1(1) 2(1) 3)
  qed
  show "kickoutValidator String cfg epoch ec =
          (if needKickout cfg ec epoch validators [] = [] then (ec, None)
           else kickoutLoop cfg epoch
                  (countCandidates
                     (int (length (needKickout cfg ec epoch validators [])) + safeSize cfg)
                     0 (candidateTrie (DposContext ec)))
                  (sort_Sort (Reverse (Less String))
                     (needKickout cfg ec epoch validators []))
                  ec)"
    if "GetValidators (DposContext ec) = Inr validators \<and> validators \<noteq> [] \<and>
       blockInterval cfg \<noteq> 0 \<and> maxValidatorSize cfg \<noteq> 0"
    using that by (simp add: kickoutValidator_def Let_def)
qed

theorem needKickout_inactive_witness:
  "kickoutThreshold cfgEx ecMint = 1440
   \<and> mintCnt (DposContext ecMint) 1 1 = 5
   \<and> mintCnt (DposContext ecMint) 1 2 = 1441
   \<and> mintCnt (DposContext ecMint) 1 3 = 0
   \<and> mintCnt (DposContext ecMint) 2 3 = 7
   \<and> mintCnt (DposContext ecMint) 1 4 = 0
   \<and> mintCnt (DposContext ecMint) 1 5 = - 1
   \<and> mintCnt (DposContext ecMint) 1 6 = 1000
   \<and> needKickout cfgEx ecMint 1 [1, 2, 3, 4, 5, 6] [] =
       [\<lparr>address = 1, weight = 5\<rparr>, \<lparr>address = 3, weight = 0\<rparr>,
        \<lparr>address = 4, weight = 0\<rparr>, \<lparr>address = 5, weight = - 1\<rparr>,
        \<lparr>address = 6, weight = 1000\<rparr>]
   \<and> 2 \<notin> address ` set (needKickout cfgEx ecMint 1 [1, 2, 3, 4, 5, 6] [])
   \<and> 6 \<in> address ` set (needKickout cfgEx ecMint 1 [1, 2, 3, 4, 5, 6] [])
   \<and> epochDuration cfgEx ecShort = 43200
   \<and> kickoutThreshold cfgEx ecShort = 720
   \<and> 6 \<notin> address ` set (needKickout cfgEx ecShort 1 [1, 2, 3, 4, 5, 6] [])
   \<and> epochDuration cfgLate ecShort = - 100
   \<and> kickoutThreshold cfgLate ecShort = - 1"
proof -
  note t = needKickout_inactive [of cfgEx ecMint 1 "[1, 2, 3, 4, 5, 6]" hexString]
  note list = t [THEN conjunct1]
  note member = t [THEN conjunct2, THEN conjunct1, rule_format]
  note count = t [THEN conjunct2, THEN conjunct2, THEN conjunct1, rule_format]
  note plain = t [THEN conjunct2, THEN conjunct2, THEN conjunct2, THEN conjunct2,
      THEN conjunct2, THEN conjunct2, THEN conjunct2, THEN conjunct1, rule_format]
  note count2 = needKickout_inactive [of cfgEx ecMint 2 "[3]" hexString,
      THEN conjunct2, THEN conjunct2, THEN conjunct1, rule_format]
  note s = needKickout_inactive [of cfgEx ecShort 1 "[1, 2, 3, 4, 5, 6]" hexString]
  note member_s = s [THEN conjunct2, THEN conjunct1, rule_format]
  note count_s = s [THEN conjunct2, THEN conjunct2, THEN conjunct1, rule_format]
  note duration_s = s [THEN conjunct2, THEN conjunct2, THEN conjunct2, THEN conjunct2,
      THEN conjunct1]
  note sub_s = s [THEN conjunct2, THEN conjunct2, THEN conjunct2, THEN conjunct2,
      THEN conjunct2, THEN conjunct2, THEN conjunct1, rule_format]
  note plain_s = s [THEN conjunct2, THEN conjunct2, THEN conjunct2, THEN conjunct2,
      THEN conjunct2, THEN conjunct2, THEN conjunct2, THEN conjunct1, rule_format]
  note l = needKickout_inactive [of cfgLate ecShort 1 "[1, 2, 3, 4, 5, 6]" hexString]
  note duration_l = l [THEN conjunct2, THEN conjunct2, THEN conjunct2, THEN conjunct2,
      THEN conjunct1]
  note sub_l = l [THEN conjunct2, THEN conjunct2, THEN conjunct2, THEN conjunct2,
      THEN conjunct2, THEN conjunct2, THEN conjunct1, rule_format]
  note negative_l = l [THEN conjunct2, THEN conjunct2, THEN conjunct2, THEN conjunct2,
      THEN conjunct2, THEN conjunct2, THEN conjunct2, THEN conjunct2, THEN conjunct1,
      rule_format]
  have p: "0 \<le> epochDuration cfgEx ecMint \<and> epochDuration cfgEx ecMint < 2 ^ 63 \<and>
      0 < blockInterval cfgEx \<and> 0 < maxValidatorSize cfgEx"
    by code_simp
  have "kickoutThreshold cfgEx ecMint =
      epochDuration cfgEx ecMint div blockInterval cfgEx div maxValidatorSize cfgEx div 2"
    using p by (rule plain)
  also have "\<dots> = 1440" by code_simp
  finally have th: "kickoutThreshold cfgEx ecMint = 1440" .
  have m1: "mintCnt (DposContext ecMint) 1 1 = 5"
    unfolding count [of 1] by code_simp
  have m2: "mintCnt (DposContext ecMint) 1 2 = 1441"
    unfolding count [of 2] by code_simp
  have m3: "mintCnt (DposContext ecMint) 1 3 = 0"
    unfolding count [of 3] by code_simp
  have m32: "mintCnt (DposContext ecMint) 2 3 = 7"
    unfolding count2 [of 3] by code_simp
  have m4: "mintCnt (DposContext ecMint) 1 4 = 0"
    unfolding count [of 4] by code_simp
  have m5: "mintCnt (DposContext ecMint) 1 5 = - 1"
    unfolding count [of 5] by code_simp
  have m6: "mintCnt (DposContext ecMint) 1 6 = 1000"
    unfolding count [of 6] by code_simp
  have collected: "needKickout cfgEx ecMint 1 [1, 2, 3, 4, 5, 6] [] =
       [\<lparr>address = 1, weight = 5\<rparr>, \<lparr>address = 3, weight = 0\<rparr>,
        \<lparr>address = 4, weight = 0\<rparr>, \<lparr>address = 5, weight = - 1\<rparr>,
        \<lparr>address = 6, weight = 1000\<rparr>]"
    unfolding list by (simp add: th m1 m2 m3 m4 m5 m6)
  have out2: "2 \<notin> address ` set (needKickout cfgEx ecMint 1 [1, 2, 3, 4, 5, 6] [])"
    unfolding member by (simp add: th m2)
  have in6: "6 \<in> address ` set (needKickout cfgEx ecMint 1 [1, 2, 3, 4, 5, 6] [])"
    unfolding member by (simp add: th m6)
  have "- (2 ^ 63) \<le> TimeStamp ecShort - timeOfFirstBlock cfgEx \<and>
      TimeStamp ecShort - timeOfFirstBlock cfgEx < 2 ^ 63"
    by code_simp
  then have "sub64 (TimeStamp ecShort) (timeOfFirstBlock cfgEx)
      = TimeStamp ecShort - timeOfFirstBlock cfgEx"
    by (rule sub_s)
  also have "\<dots> = 43200" by code_simp
  finally have sub: "sub64 (TimeStamp ecShort) (timeOfFirstBlock cfgEx) = 43200" .
  have ei: "epochInterval cfgEx = 86400" by code_simp
  have ds: "epochDuration cfgEx ecShort = 43200"
    unfolding duration_s by (simp add: sub ei)
  have "0 \<le> epochDuration cfgEx ecShort \<and> epochDuration cfgEx ecShort < 2 ^ 63 \<and>
      0 < blockInterval cfgEx \<and> 0 < maxValidatorSize cfgEx"
    unfolding ds by code_simp
  then have "kickoutThreshold cfgEx ecShort =
      epochDuration cfgEx ecShort div blockInterval cfgEx div maxValidatorSize cfgEx div 2"
    by (rule plain_s)
  also have "\<dots> = 720" unfolding ds by code_simp
  finally have ths: "kickoutThreshold cfgEx ecShort = 720" .
  have m6s: "mintCnt (DposContext ecShort) 1 6 = 1000"
    unfolding count_s [of 6] by code_simp
  have out6: "6 \<notin> address ` set (needKickout cfgEx ecShort 1 [1, 2, 3, 4, 5, 6] [])"
    unfolding member_s by (simp add: ths m6s)
  have "- (2 ^ 63) \<le> TimeStamp ecShort - timeOfFirstBlock cfgLate \<and>
      TimeStamp ecShort - timeOfFirstBlock cfgLate < 2 ^ 63"
    by code_simp
  then have "sub64 (TimeStamp ecShort) (timeOfFirstBlock cfgLate)
      = TimeStamp ecShort - timeOfFirstBlock cfgLate"
    by (rule sub_l)
  also have "\<dots> = - 100" by code_simp
  finally have subl: "sub64 (TimeStamp ecShort) (timeOfFirstBlock cfgLate) = - 100" .
  have eil: "epochInterval cfgLate = 86400" by code_simp
  have dl: "epochDuration cfgLate ecShort = - 100"
    unfolding duration_l by (simp add: subl eil)
  have "epochDuration cfgLate ecShort \<le> 0 \<and> - (2 ^ 63) \<le> epochDuration cfgLate ecShort \<and>
      0 < blockInterval cfgLate \<and> 0 < maxValidatorSize cfgLate"
    unfolding dl by code_simp
  then have "kickoutThreshold cfgLate ecShort =
      - ((- epochDuration cfgLate ecShort) div blockInterval cfgLate
           div maxValidatorSize cfgLate div 2)"
    by (rule negative_l)
  also have "\<dots> = - 1" unfolding dl by code_simp
  finally have thl: "kickoutThreshold cfgLate ecShort = - 1" .
  from th m1 m2 m3 m32 m4 m5 m6 collected out2 in6 ds ths out6 dl thl
  show ?thesis by (intro conjI)
qed

section \<open>The election\<close>

lemma countVotes_cong:
  assumes "candidateTrie (DposContext ec') = candidateTrie (DposContext ec)"
    and "delegateTrie (DposContext ec') = delegateTrie (DposContext ec)"
    and "statedb ec' = statedb ec"
  shows "countVotes ec' = countVotes ec"
proof -
  have d: "delegatorsOf (DposContext ec') = delegatorsOf (DposContext ec)"
    using assms(2) by (simp add: delegatorsOf_def fun_eq_iff)
  have t: "tallyCandidates ec' cs votes = tallyCandidates ec cs votes" for cs votes
    by (induction cs arbitrary: votes) (simp_all add: d assms(3) split: list.splits)
  show ?thesis by (simp only: countVotes_def assms(1) t)
qed

lemma countVotes_dom:
  assumes "countVotes ec = Inr votes"
  shows "dom votes = set (candidateTrie (DposContext ec))"
proof (cases "candidateTrie (DposContext ec)")
  case Nil
  with assms show ?thesis by (simp add: countVotes_def)
next
  case (Cons c cs)
  with assms have "votes = tallyCandidates ec (c # cs) Map.empty"
    by (simp add: countVotes_def del: tallyCandidates.simps)
  then have "dom votes = set (c # cs)"
    by (simp only: tallyCandidates_dom) simp
  with Cons show ?thesis by simp
qed

lemma rangeVotes_eq:
  "rangeVotes votes ks =
     map (\<lambda>a. \<lparr>address = a, weight = the (votes a)\<rparr>) (filter (\<lambda>a. votes a \<noteq> None) ks)"
  by (induction ks) (auto split: option.splits)

lemma rangeVotes_address:
  "map address (rangeVotes votes ks) = filter (\<lambda>a. votes a \<noteq> None) ks"
  by (simp add: rangeVotes_eq comp_def)

lemma rangeVotes_enum:
  assumes "distinct ks" "set ks = dom votes"
  shows "length (rangeVotes votes ks) = card (dom votes)"
proof -
  from assms(2) have "filter (\<lambda>a. votes a \<noteq> None) ks = ks"
    by (auto simp: filter_id_conv)
  then have "length (rangeVotes votes ks) = length ks"
    by (simp add: rangeVotes_eq)
  also from assms have "\<dots> = card (dom votes)"
    by (metis distinct_card)
  finally show ?thesis .
qed

lemma rangeVotes_mset:
  assumes "distinct ks" "set ks = dom votes" "distinct ks'" "set ks' = dom votes"
  shows "mset (rangeVotes votes ks) = mset (rangeVotes votes ks')"
proof -
  from assms have m: "mset ks = mset ks'"
    by (metis set_eq_iff_mset_eq_distinct)
  from assms(2,4)
  have f: "filter (\<lambda>a. votes a \<noteq> None) ks = ks"
    "filter (\<lambda>a. votes a \<noteq> None) ks' = ks'"
    by (auto simp: filter_id_conv)
  show ?thesis
    by (simp only: rangeVotes_eq f mset_map m)
qed

lemma shuffleLoop_mset:
  "shuffleLoop int31n r k cs = Inr cs' \<Longrightarrow> mset cs' = mset cs"
proof (induction k arbitrary: r cs)
  case 0
  then show ?case by simp
next
  case (Suc k)
  from Suc.prems obtain j r' where
    d: "int31n r (wrap32 (int (Suc k) + 1)) = (j, r')"
    and b: "0 \<le> j" "nat j < length cs" "Suc k < length cs"
    and rec: "shuffleLoop int31n r' k (cs[Suc k := cs ! nat j, nat j := cs ! Suc k]) = Inr cs'"
    by (auto simp: Let_def split: if_splits prod.splits)
  from Suc.IH [OF rec] have "mset cs' = mset (cs[Suc k := cs ! nat j, nat j := cs ! Suc k])" .
  also from b have "\<dots> = mset cs" by (simp add: mset_swap)
  finally show ?case .
qed

lemma shuffle_mset: "shuffle ext seed cs = Inr cs' \<Longrightarrow> mset cs' = mset cs"
  unfolding shuffle_def by (rule shuffleLoop_mset)

lemma LittleEndian_Uint32_low32:
  assumes "4 \<le> length b"
  shows "LittleEndian_Uint32 b = Some (low32 b)"
proof -
  from assms obtain b0 b1 b2 b3 rest where b: "b = b0 # b1 # b2 # b3 # rest"
    by (cases b; cases "tl b"; cases "tl (tl b)"; cases "tl (tl (tl b))") auto
  let ?v = "unat b0 + 256 * unat b1 + 65536 * unat b2 + 16777216 * unat b3"
  have lt: "?v < 2 ^ 32"
    using unsigned_less [of b0, where ?'a = nat] unsigned_less [of b1, where ?'a = nat]
      unsigned_less [of b2, where ?'a = nat] unsigned_less [of b3, where ?'a = nat]
    by simp
  have "le_nat b = ?v + 2 ^ 32 * le_nat rest"
    by (simp add: b)
  then have "le_nat b mod 2 ^ 32 = ?v"
    using lt by simp
  then have "low32 b = int ?v" by (simp add: low32_def)
  moreover have "LittleEndian_Uint32 b = Some (int ?v)"
    by (simp add: LittleEndian_Uint32_def b)
  ultimately show ?thesis by simp
qed

lemma wrap64_shift_inj:
  assumes "in_int64 i" "in_int64 j" "wrap64 (u + i) = wrap64 (u + j)"
  shows "i = j"
proof -
  from assms(3) have "(u + i + 2 ^ 63) mod 2 ^ 64 = (u + j + 2 ^ 63) mod (2 ^ 64 :: int)"
    by (simp add: wrap64_def)
  then have "(2 ^ 64 :: int) dvd (u + i + 2 ^ 63) - (u + j + 2 ^ 63)"
    by (simp add: mod_eq_dvd_iff)
  then have d: "(2 ^ 64 :: int) dvd i - j" by simp
  from assms(1,2) have "\<bar>i - j\<bar> < 2 ^ 64" by (simp add: in_int64_def abs_less_iff)
  with d show ?thesis
    using zdvd_not_zless [of "\<bar>i - j\<bar>" "2 ^ 64"] by (cases "i = j") (auto simp: dvd_abs_iff)
qed

lemma shuffleSeed_eq:
  "shuffleSeed ext parent i =
     (if length (Keccak512 ext (Hash parent)) < 4 then None
      else Some (wrap64 (low32 (Keccak512 ext (Hash parent)) + i)))"
proof (cases "length (Keccak512 ext (Hash parent)) < 4")
  case True
  then show ?thesis by (simp add: shuffleSeed_def LittleEndian_Uint32_def)
next
  case False
  then have "LittleEndian_Uint32 (Keccak512 ext (Hash parent))
      = Some (low32 (Keccak512 ext (Hash parent)))"
    by (intro LittleEndian_Uint32_low32) simp
  with False show ?thesis by (simp add: shuffleSeed_def add64_def)
qed

lemma length_sort_Sort: "length (sort_Sort lt xs) = length xs"
  using mset_sort_Sort [of lt xs] by (rule mset_eq_length)

lemma electValidators_too_few:
  "countVotes ec = Inr votes \<Longrightarrow>
   int (length (rangeVotes votes (order votes))) < safeSize cfg \<Longrightarrow>
   electValidators ext cfg order parent i ec = (ec, Some ErrTooFewCandidates)"
  by (simp add: electValidators_def)

lemma electValidators_unfold:
  assumes cv: "countVotes ec = Inr votes"
  shows "electValidators ext cfg order parent i ec =
     (if int (length (rangeVotes votes (order votes))) < safeSize cfg
      then (ec, Some ErrTooFewCandidates)
      else if maxValidatorSize cfg < 0 then (ec, Some (Panic SliceBounds))
      else
        case shuffleSeed ext parent i of
          None \<Rightarrow> (ec, Some (Panic IndexOutOfRange))
        | Some seed \<Rightarrow>
            (case shuffle ext seed
                    (take (nat (maxValidatorSize cfg))
                       (sort_Sort (Less (AddressString ext))
                          (rangeVotes votes (order votes)))) of
               Inl err \<Rightarrow> (ec, Some err)
             | Inr candidates \<Rightarrow>
                 (ec\<lparr>DposContext := SetValidators (map address candidates) (DposContext ec),
                     logged := logged ec @ [LogNewEpoch i (i + 1)]\<rparr>, None)))"
proof -
  let ?range = "rangeVotes votes (order votes)"
  let ?sorted = "sort_Sort (Less (AddressString ext)) ?range"
  consider "int (length ?range) < safeSize cfg"
    | "\<not> int (length ?range) < safeSize cfg" "maxValidatorSize cfg < 0"
    | "\<not> int (length ?range) < safeSize cfg" "0 \<le> maxValidatorSize cfg"
        "maxValidatorSize cfg < int (length ?range)"
    | "\<not> int (length ?range) < safeSize cfg" "0 \<le> maxValidatorSize cfg"
        "int (length ?range) \<le> maxValidatorSize cfg"
    by linarith
  then show ?thesis
  proof cases
    case 1
    then show ?thesis by (simp add: electValidators_def cv)
  next
    case 2
    then have "maxValidatorSize cfg < int (length ?sorted)" by simp
    with 2 show ?thesis by (simp add: electValidators_def cv Let_def length_sort_Sort)
  next
    case 3
    then show ?thesis
      by (simp add: electValidators_def cv Let_def length_sort_Sort
            split: option.splits sum.splits)
  next
    case 4
    then have "take (nat (maxValidatorSize cfg)) ?sorted = ?sorted"
      by (simp add: length_sort_Sort)
    with 4 show ?thesis
      by (simp add: electValidators_def cv Let_def length_sort_Sort
            split: option.splits sum.splits)
  qed
qed

lemma electValidators_success:
  assumes "electValidators ext cfg order parent i ec = (ec', None)"
  shows "\<exists>votes seed shuffled.
      countVotes ec = Inr votes \<and>
      safeSize cfg \<le> int (length (rangeVotes votes (order votes))) \<and>
      shuffleSeed ext parent i = Some seed \<and>
      shuffle ext seed
        (take (nat (maxValidatorSize cfg))
           (sort_Sort (Less (AddressString ext)) (rangeVotes votes (order votes))))
        = Inr shuffled \<and>
      0 \<le> maxValidatorSize cfg \<and>
      ec' = ec\<lparr>DposContext := SetValidators (map address shuffled) (DposContext ec),
                logged := logged ec @ [LogNewEpoch i (i + 1)]\<rparr>"
proof -
  from assms obtain votes where cv: "countVotes ec = Inr votes"
    by (auto simp: electValidators_def split: sum.splits)
  note u = assms [unfolded electValidators_unfold [OF cv]]
  from u have safe: "safeSize cfg \<le> int (length (rangeVotes votes (order votes)))"
    and max: "0 \<le> maxValidatorSize cfg"
    by (auto split: if_splits)
  from u safe max obtain seed where seed: "shuffleSeed ext parent i = Some seed"
    by (cases "shuffleSeed ext parent i") (auto split: if_splits)
  from u safe max seed obtain shuffled where
    sh: "shuffle ext seed
        (take (nat (maxValidatorSize cfg))
           (sort_Sort (Less (AddressString ext)) (rangeVotes votes (order votes))))
        = Inr shuffled"
    by (cases "shuffle ext seed
        (take (nat (maxValidatorSize cfg))
           (sort_Sort (Less (AddressString ext)) (rangeVotes votes (order votes))))")
       (auto split: if_splits)
  from u safe max seed sh
  have "ec' = ec\<lparr>DposContext := SetValidators (map address shuffled) (DposContext ec),
                logged := logged ec @ [LogNewEpoch i (i + 1)]\<rparr>"
    by (simp split: if_splits)
  with cv safe seed sh max show ?thesis by blast
qed

lemma electValidators_order:
  assumes inj: "inj (AddressString ext)"
    and cv: "countVotes ec = Inr votes"
    and o1: "distinct (order1 votes)" "set (order1 votes) = dom votes"
    and o2: "distinct (order2 votes)" "set (order2 votes) = dom votes"
  shows "electValidators ext cfg order1 parent i ec
       = electValidators ext cfg order2 parent i ec"
proof -
  have m: "mset (rangeVotes votes (order1 votes)) = mset (rangeVotes votes (order2 votes))"
    using o1 o2 by (rule rangeVotes_mset)
  then have len: "length (rangeVotes votes (order1 votes))
      = length (rangeVotes votes (order2 votes))"
    by (rule mset_eq_length)
  have total: "p \<noteq> q \<Longrightarrow> Less (AddressString ext) p q \<or> Less (AddressString ext) q p" for p q
    by (rule Less_total [OF inj])
  have srt: "sort_Sort (Less (AddressString ext)) (rangeVotes votes (order1 votes))
      = sort_Sort (Less (AddressString ext)) (rangeVotes votes (order2 votes))"
  proof (rule sort_Sort_unique)
    show "\<And>a b. Less (AddressString ext) a b \<Longrightarrow> \<not> Less (AddressString ext) b a"
      by (rule Less_asym)
    show "\<And>a b c. Less (AddressString ext) a b \<Longrightarrow> Less (AddressString ext) b c
        \<Longrightarrow> Less (AddressString ext) a c"
      by (rule Less_trans)
    show "\<And>a b. a \<noteq> b \<Longrightarrow> Less (AddressString ext) a b \<or> Less (AddressString ext) b a"
      by (rule total)
    show "mset (sort_Sort (Less (AddressString ext)) (rangeVotes votes (order1 votes)))
        = mset (rangeVotes votes (order2 votes))"
      by (simp only: mset_sort_Sort m)
    show "sorted_wrt (\<lambda>a b. \<not> Less (AddressString ext) b a)
        (sort_Sort (Less (AddressString ext)) (rangeVotes votes (order1 votes)))"
      by (rule sorted_sort_Sort) (fact Less_asym, fact Less_trans)
  qed
  show ?thesis
    by (simp only: electValidators_def cv sum.case Let_def len srt)
qed

lemma kickoutValidator_epochTrie:
  "epochTrie (DposContext (fst (kickoutValidator String cfg epoch ec)))
     = epochTrie (DposContext ec)"
  using kickoutValidator_cases [of String cfg epoch ec]
  by (auto simp: kickoutLoop_epochTrie)

lemma kickoutStep_epochTrie:
  assumes "kickoutStep String cfg prevEpoch g (iter, ec) = ((iter1, ec1), err)"
  shows "epochTrie (DposContext ec1) = epochTrie (DposContext ec)"
proof (cases "g \<or> \<not> fst (iterNext iter)")
  case True
  with assms have "ec1 = ec"
    by (auto simp: kickoutStep_def split: prod.splits if_splits)
  then show ?thesis by simp
next
  case False
  with assms have "ec1 = fst (kickoutValidator String cfg prevEpoch ec)"
    by (auto simp: kickoutStep_def split: prod.splits if_splits)
  then show ?thesis by (simp add: kickoutValidator_epochTrie)
qed

lemma tryElectStep_after_kickout:
  assumes "kickoutStep (AddressString ext) cfg prevEpoch g st = ((iter1, ec1), None)"
  shows "tryElectStep ext cfg order parent prevEpoch g i st =
     ((iter1, fst (electValidators ext cfg order parent i ec1)),
      snd (electValidators ext cfg order parent i ec1))"
  using assms by (simp add: tryElectStep_def split: prod.splits)

lemma tryElectStep_kickout_error:
  assumes "kickoutStep (AddressString ext) cfg prevEpoch g st = (st', Some err)"
  shows "tryElectStep ext cfg order parent prevEpoch g i st = (st', Some err)"
  using assms by (simp add: tryElectStep_def)

lemma AddressString_extEx: "AddressString extEx = hexString"
  by (simp add: extEx_def)

lemma order_examples:
  assumes "dom votes = {1, 2, 3, 4, 5}"
  shows "distinct (orderUp votes)" "set (orderUp votes) = dom votes"
    "distinct (orderDown votes)" "set (orderDown votes) = dom votes"
  using assms by (auto simp: orderUp_def orderDown_def)

lemma countVotes_ecEx:
  obtains votes where "countVotes ecEx = Inr votes" "dom votes = {1, 2, 3, 4, 5}"
proof -
  obtain votes where v: "countVotes ecEx = Inr votes"
    by (simp add: countVotes_def ecEx_def dcEx_def)
  from countVotes_dom [OF v] have "dom votes = {1, 2, 3, 4, 5}"
    by (simp add: ecEx_def dcEx_def insert_commute)
  with v that show ?thesis by blast
qed

lemma countVotes_ecFew:
  obtains votes where "countVotes ecFew = Inr votes" "dom votes = {1}"
proof -
  obtain votes where v: "countVotes ecFew = Inr votes"
    by (simp add: countVotes_def ecFew_def ecEx_def dcEx_def)
  from countVotes_dom [OF v] have "dom votes = {1}"
    by (simp add: ecFew_def ecEx_def dcEx_def)
  with v that show ?thesis by blast
qed

text \<open>
  C2. The validator order committed by an iteration of \<open>tryElect\<close> is the shuffle applied
  to the sorted, truncated candidate list and the seed, and to nothing else: for an
  injective string form of addresses, the order in which Go ranges over the tally has
  no effect on the iteration, so two runs on the same state, parent and index end alike.
  The seed is the low 32 bits of the digest of the parent hash plus the loop index, in
  64-bit arithmetic, and two distinct loop indices give distinct seeds for the same
  parent.
\<close>

theorem tryElect_shuffle_deterministic:
  assumes inj: "inj (AddressString ext)"
    and kick: "kickoutStep (AddressString ext) cfg prevEpoch prevEpochIsGenesis st
                = ((iter1, ec), err)"
    and cv: "countVotes ec = Inr votes"
    and o1: "distinct (order1 votes)" "set (order1 votes) = dom votes"
    and o2: "distinct (order2 votes)" "set (order2 votes) = dom votes"
  shows "tryElectStep ext cfg order1 parent prevEpoch prevEpochIsGenesis i st
           = tryElectStep ext cfg order2 parent prevEpoch prevEpochIsGenesis i st
    \<and> electValidators ext cfg order1 parent i ec
        = electValidators ext cfg order2 parent i ec
    \<and> (\<forall>ec'. electValidators ext cfg order1 parent i ec = (ec', None) \<longrightarrow>
          (\<exists>seed shuffled.
              shuffleSeed ext parent i = Some seed \<and>
              shuffle ext seed
                (take (nat (maxValidatorSize cfg))
                   (sort_Sort (Less (AddressString ext))
                      (rangeVotes votes (order1 votes)))) = Inr shuffled \<and>
              GetValidators (DposContext ec') = Inr (map address shuffled)))
    \<and> (\<forall>seed. shuffleSeed ext parent i = Some seed \<longrightarrow>
          seed = wrap64 (low32 (Keccak512 ext (Hash parent)) + i))
    \<and> (\<forall>j s t. in_int64 i \<and> in_int64 j \<and> i \<noteq> j \<and>
          shuffleSeed ext parent i = Some s \<and> shuffleSeed ext parent j = Some t \<longrightarrow>
          s \<noteq> t)"
proof (intro conjI allI impI)
  show e: "electValidators ext cfg order1 parent i ec
      = electValidators ext cfg order2 parent i ec"
    using inj cv o1 o2 by (rule electValidators_order)
  show "tryElectStep ext cfg order1 parent prevEpoch prevEpochIsGenesis i st
      = tryElectStep ext cfg order2 parent prevEpoch prevEpochIsGenesis i st"
  proof (cases err)
    case None
    with kick show ?thesis by (simp add: tryElectStep_after_kickout e)
  next
    case (Some x)
    with kick show ?thesis by (simp add: tryElectStep_kickout_error)
  qed
next
  fix ec'
  assume "electValidators ext cfg order1 parent i ec = (ec', None)"
  from electValidators_success [OF this] cv
  obtain seed shuffled where
    "shuffleSeed ext parent i = Some seed"
    "shuffle ext seed
       (take (nat (maxValidatorSize cfg))
          (sort_Sort (Less (AddressString ext)) (rangeVotes votes (order1 votes))))
     = Inr shuffled"
    "ec' = ec\<lparr>DposContext := SetValidators (map address shuffled) (DposContext ec),
              logged := logged ec @ [LogNewEpoch i (i + 1)]\<rparr>"
    by auto
  then show "\<exists>seed shuffled.
      shuffleSeed ext parent i = Some seed \<and>
      shuffle ext seed
        (take (nat (maxValidatorSize cfg))
           (sort_Sort (Less (AddressString ext))
              (rangeVotes votes (order1 votes)))) = Inr shuffled \<and>
      GetValidators (DposContext ec') = Inr (map address shuffled)"
    by (auto simp: GetValidators_def SetValidators_def)
next
  fix seed
  assume "shuffleSeed ext parent i = Some seed"
  then show "seed = wrap64 (low32 (Keccak512 ext (Hash parent)) + i)"
    by (simp add: shuffleSeed_eq split: if_splits)
next
  fix j s t
  assume h: "in_int64 i \<and> in_int64 j \<and> i \<noteq> j \<and>
      shuffleSeed ext parent i = Some s \<and> shuffleSeed ext parent j = Some t"
  then have "s = wrap64 (low32 (Keccak512 ext (Hash parent)) + i)"
    "t = wrap64 (low32 (Keccak512 ext (Hash parent)) + j)"
    by (simp_all add: shuffleSeed_eq split: if_splits)
  with h show "s \<noteq> t" using wrap64_shift_inj by blast
qed

theorem tryElect_shuffle_deterministic_witness:
  "inj (AddressString extEx)
   \<and> kickoutStep (AddressString extEx) cfgEx 1 True ([], ecEx) = (([], ecEx), None)
   \<and> tryElectStep extEx cfgEx orderUp parentEx 1 True 1 ([], ecEx)
       = tryElectStep extEx cfgEx orderDown parentEx 1 True 1 ([], ecEx)
   \<and> GetValidators (DposContext (snd (fst
         (tryElectStep extEx cfgEx orderDown parentEx 1 True 1 ([], ecEx))))) = Inr [2, 3, 1]
   \<and> shuffleSeed extEx parentEx 1 = Some 84148995"
proof -
  have inj: "inj (AddressString extEx)"
    by (simp add: AddressString_extEx inj_hexString)
  have kick: "kickoutStep (AddressString extEx) cfgEx 1 True ([], ecEx) = (([], ecEx), None)"
    by (simp add: kickoutStep_def)
  obtain votes where v: "countVotes ecEx = Inr votes" "dom votes = {1, 2, 3, 4, 5}"
    by (rule countVotes_ecEx)
  note o = order_examples [OF v(2)]
  from tryElect_shuffle_deterministic
    [where ext = extEx and cfg = cfgEx and prevEpoch = 1 and prevEpochIsGenesis = True
       and st = "([], ecEx)" and ?iter1.0 = "[]" and ec = ecEx and err = None
       and votes = votes and ?order1.0 = orderUp and ?order2.0 = orderDown
       and parent = parentEx and i = 1,
     OF inj kick v(1) o, THEN conjunct1]
  have eq: "tryElectStep extEx cfgEx orderUp parentEx 1 True 1 ([], ecEx)
       = tryElectStep extEx cfgEx orderDown parentEx 1 True 1 ([], ecEx)" .
  have r: "GetValidators (DposContext (snd (fst
         (tryElectStep extEx cfgEx orderDown parentEx 1 True 1 ([], ecEx))))) = Inr [2, 3, 1]"
    by code_simp
  have s: "shuffleSeed extEx parentEx 1 = Some 84148995" by code_simp
  from inj kick eq r s show ?thesis by (intro conjI)
qed

text \<open>
  C8. When the tally of an iteration of \<open>tryElect\<close>, taken after the eviction step, has
  fewer than \<open>safeSize\<close> candidates, the iteration fails with the too-few-candidates
  error, the validator set stored is the one the iteration started from, and the loop
  of \<open>tryElect\<close> returns that error there.
\<close>

theorem tryElect_too_few_candidates:
  assumes kick: "kickoutStep (AddressString ext) cfg prevEpoch prevEpochIsGenesis (iter, ec)
                  = ((iter1, ec1), None)"
    and cv: "countVotes ec1 = Inr votes"
    and ord: "distinct (order votes)" "set (order votes) = dom votes"
    and few: "int (card (dom votes)) < safeSize cfg"
  shows "tryElectStep ext cfg order parent prevEpoch prevEpochIsGenesis i (iter, ec)
           = ((iter1, ec1), Some ErrTooFewCandidates)
    \<and> GetValidators (DposContext ec1) = GetValidators (DposContext ec)
    \<and> (i < currentEpoch \<longrightarrow>
          tryElectLoop (tryElectStep ext cfg order parent prevEpoch prevEpochIsGenesis)
            currentEpoch i (iter, ec)
          = ((iter1, ec1), Some ErrTooFewCandidates))"
proof -
  from ord few have "int (length (rangeVotes votes (order votes))) < safeSize cfg"
    by (simp add: rangeVotes_enum)
  with cv have "electValidators ext cfg order parent i ec1 = (ec1, Some ErrTooFewCandidates)"
    by (rule electValidators_too_few)
  with kick have step: "tryElectStep ext cfg order parent prevEpoch prevEpochIsGenesis i (iter, ec)
      = ((iter1, ec1), Some ErrTooFewCandidates)"
    by (simp add: tryElectStep_after_kickout)
  from kick have "epochTrie (DposContext ec1) = epochTrie (DposContext ec)"
    by (rule kickoutStep_epochTrie)
  then have same: "GetValidators (DposContext ec1) = GetValidators (DposContext ec)"
    by (simp add: GetValidators_def)
  have "tryElectLoop (tryElectStep ext cfg order parent prevEpoch prevEpochIsGenesis)
            currentEpoch i (iter, ec)
          = ((iter1, ec1), Some ErrTooFewCandidates)" if "i < currentEpoch"
    using that by (subst tryElectLoop.simps) (simp add: step)
  with step same show ?thesis by blast
qed

theorem tryElect_too_few_candidates_witness:
  "kickoutStep (AddressString extEx) cfgFloor 1 True ([], ecFew) = (([], ecFew), None)
   \<and> tryElectStep extEx cfgFloor orderUp parentEx 1 True 1 ([], ecFew)
       = (([], ecFew), Some ErrTooFewCandidates)
   \<and> tryElectLoop (tryElectStep extEx cfgFloor orderUp parentEx 1 True) 2 1 ([], ecFew)
       = (([], ecFew), Some ErrTooFewCandidates)
   \<and> snd (tryElect extEx cfgFloor orderUp genesisEx genesisEx ecFew)
       = Some ErrTooFewCandidates
   \<and> GetValidators (DposContext (fst (tryElect extEx cfgFloor orderUp genesisEx genesisEx ecFew)))
       = GetValidators (DposContext ecFew)"
proof -
  have kick: "kickoutStep (AddressString extEx) cfgFloor 1 True ([], ecFew)
      = (([], ecFew), None)"
    by (simp add: kickoutStep_def)
  obtain votes where v: "countVotes ecFew = Inr votes" "dom votes = {1}"
    by (rule countVotes_ecFew)
  have m: "(votes a \<noteq> None) = (a \<in> {1})" for a
    unfolding v(2) [symmetric] by (rule domIff [symmetric])
  have "orderUp votes = filter (\<lambda>a. a \<in> {1}) [1, 2, 3, 4, 5]"
    by (simp only: orderUp_def m)
  then have "orderUp votes = [1]" by simp
  then have o: "distinct (orderUp votes)" "set (orderUp votes) = dom votes"
    by (simp_all add: v(2))
  from v(2) have few: "int (card (dom votes)) < safeSize cfgFloor"
    by (simp add: cfgFloor_def cfgEx_def)
  note t = tryElect_too_few_candidates
    [where ext = extEx and cfg = cfgFloor and prevEpoch = 1 and prevEpochIsGenesis = True
       and iter = "[]" and ec = ecFew and ?iter1.0 = "[]" and ?ec1.0 = ecFew
       and votes = votes and order = orderUp and parent = parentEx and i = 1
       and currentEpoch = 2,
     OF kick v(1) o few]
  have l: "snd (tryElect extEx cfgFloor orderUp genesisEx genesisEx ecFew)
       = Some ErrTooFewCandidates"
    by code_simp
  have g: "GetValidators (DposContext (fst (tryElect extEx cfgFloor orderUp genesisEx genesisEx ecFew)))
       = GetValidators (DposContext ecFew)"
    by code_simp
  from kick t l g show ?thesis by simp
qed

text \<open>
  C9. A validator set committed by an iteration of \<open>tryElect\<close> has no duplicate
  address, contains only candidates of the candidate index as it was at the tally (after
  the eviction step), and has at most \<open>maxValidatorSize\<close> entries. Ranging over a map
  yields every key once.
\<close>

theorem tryElectStep_validator_set:
  assumes step: "tryElectStep ext cfg order parent prevEpoch prevEpochIsGenesis i (iter, ec)
                  = ((iter', ec'), None)"
    and ord: "\<forall>votes. countVotes ec' = Inr votes \<longrightarrow> distinct (order votes)"
  shows "\<exists>ec1 validators.
      kickoutStep (AddressString ext) cfg prevEpoch prevEpochIsGenesis (iter, ec)
        = ((iter', ec1), None) \<and>
      electValidators ext cfg order parent i ec1 = (ec', None) \<and>
      candidateTrie (DposContext ec') = candidateTrie (DposContext ec1) \<and>
      GetValidators (DposContext ec') = Inr validators \<and>
      distinct validators \<and>
      set validators \<subseteq> set (candidateTrie (DposContext ec1)) \<and>
      int (length validators) \<le> maxValidatorSize cfg"
proof -
  obtain iter1 ec1 err where
    kick: "kickoutStep (AddressString ext) cfg prevEpoch prevEpochIsGenesis (iter, ec)
            = ((iter1, ec1), err)"
    by (metis surj_pair)
  have err: "err = None"
  proof (cases err)
    case (Some x)
    with kick step show ?thesis by (simp add: tryElectStep_kickout_error)
  qed simp
  from kick err step have it: "iter' = iter1"
    and el: "electValidators ext cfg order parent i ec1 = (ec', None)"
    by (simp_all add: tryElectStep_after_kickout prod_eq_iff)
  from electValidators_success [OF el] obtain votes seed shuffled where
    cv: "countVotes ec1 = Inr votes"
    and sh: "shuffle ext seed
        (take (nat (maxValidatorSize cfg))
           (sort_Sort (Less (AddressString ext)) (rangeVotes votes (order votes))))
        = Inr shuffled"
    and max: "0 \<le> maxValidatorSize cfg"
    and ec': "ec' = ec1\<lparr>DposContext := SetValidators (map address shuffled) (DposContext ec1),
                logged := logged ec1 @ [LogNewEpoch i (i + 1)]\<rparr>"
    by blast
  let ?range = "rangeVotes votes (order votes)"
  let ?sorted = "sort_Sort (Less (AddressString ext)) ?range"
  let ?trunc = "take (nat (maxValidatorSize cfg)) ?sorted"
  from ec' have cand: "candidateTrie (DposContext ec') = candidateTrie (DposContext ec1)"
    by (simp add: SetValidators_def)
  from ec' have "countVotes ec' = countVotes ec1"
    by (intro countVotes_cong) (simp_all add: SetValidators_def)
  with cv ord have dord: "distinct (order votes)" by simp
  from ec' have gv: "GetValidators (DposContext ec') = Inr (map address shuffled)"
    by (simp add: GetValidators_def SetValidators_def)
  have "distinct (map address ?range)"
    using dord by (simp add: rangeVotes_address)
  moreover have "mset (map address ?sorted) = mset (map address ?range)"
    by (simp add: mset_sort_Sort)
  ultimately have "distinct (map address ?sorted)"
    by (metis mset_eq_imp_distinct_iff)
  then have dt: "distinct (map address ?trunc)"
    by (simp add: take_map [symmetric] del: take_map)
  from sh have ms: "mset shuffled = mset ?trunc" by (rule shuffle_mset)
  then have "mset (map address shuffled) = mset (map address ?trunc)" by simp
  with dt have d: "distinct (map address shuffled)"
    by (metis mset_eq_imp_distinct_iff)
  from ms have "set shuffled = set ?trunc" by (rule mset_eq_setD)
  then have "set shuffled \<subseteq> set ?sorted" by (auto dest: in_set_takeD)
  then have "set shuffled \<subseteq> set ?range" by (simp add: set_sort_Sort)
  then have "set (map address shuffled) \<subseteq> set (map address ?range)" by auto
  also have "\<dots> \<subseteq> dom votes" by (auto simp: rangeVotes_address)
  also from cv have "dom votes = set (candidateTrie (DposContext ec1))"
    by (rule countVotes_dom)
  finally have sub: "set (map address shuffled) \<subseteq> set (candidateTrie (DposContext ec1))" .
  from ms have "length shuffled = length ?trunc" by (rule mset_eq_length)
  with max have len: "int (length (map address shuffled)) \<le> maxValidatorSize cfg"
    by simp
  from kick err it el cand gv d sub len show ?thesis by blast
qed

theorem tryElectStep_validator_set_witness:
  "snd (tryElectStep extEx cfgEx orderUp parentEx 1 False 1
          (mintCntTrie (DposContext ecEx), ecEx)) = None
   \<and> (\<exists>validators.
        GetValidators (DposContext (snd (fst
          (tryElectStep extEx cfgEx orderUp parentEx 1 False 1
             (mintCntTrie (DposContext ecEx), ecEx))))) = Inr validators \<and>
        validators = [5, 4] \<and> distinct validators \<and>
        int (length validators) \<le> maxValidatorSize cfgEx)"
proof -
  let ?r = "tryElectStep extEx cfgEx orderUp parentEx 1 False 1
          (mintCntTrie (DposContext ecEx), ecEx)"
  have ok: "snd ?r = None" by code_simp
  then have step: "?r = ((fst (fst ?r), snd (fst ?r)), None)"
    by (simp add: prod_eq_iff)
  have ord: "\<forall>votes. countVotes (snd (fst ?r)) = Inr votes \<longrightarrow> distinct (orderUp votes)"
    by (simp add: orderUp_def)
  from tryElectStep_validator_set [OF step ord] obtain validators where
    g: "GetValidators (DposContext (snd (fst ?r))) = Inr validators"
    and d: "distinct validators"
    and l: "int (length validators) \<le> maxValidatorSize cfgEx"
    by blast
  have "GetValidators (DposContext (snd (fst ?r))) = Inr [5, 4]" by code_simp
  with g have "validators = [5, 4]" by simp
  with ok g d l show ?thesis by blast
qed

end
